theory Spec2Isabelle
  imports Complex_Main "HOL-Library.Multiset"
begin

section \<open>Cards and the deck (types.ts, constants.ts, utils/pokerLogic.ts)\<close>

datatype Suit = Hearts | Diamonds | Clubs | Spades

datatype Rank = Two | Three | Four | Five | Six | Seven | Eight | Nine | Ten
  | Jack | Queen | King | Ace

text \<open>
  A card carries a suit, a rank and an id string. The id is built from
  \<^verbatim>\<open>Math.random()\<close> and only serves as a React key; no function below reads it.
\<close>

record Card =
  suit :: Suit
  rank :: Rank
  card_id :: string

definition RANKS :: "Rank list" where
  "RANKS = [Two, Three, Four, Five, Six, Seven, Eight, Nine, Ten, Jack, Queen, King, Ace]"

definition SUITS :: "Suit list" where
  "SUITS = [Hearts, Diamonds, Clubs, Spades]"

fun RANK_VALUE :: "Rank \<Rightarrow> int" where
  "RANK_VALUE Two = 2"
| "RANK_VALUE Three = 3"
| "RANK_VALUE Four = 4"
| "RANK_VALUE Five = 5"
| "RANK_VALUE Six = 6"
| "RANK_VALUE Seven = 7"
| "RANK_VALUE Eight = 8"
| "RANK_VALUE Nine = 9"
| "RANK_VALUE Ten = 10"
| "RANK_VALUE Jack = 11"
| "RANK_VALUE Queen = 12"
| "RANK_VALUE King = 13"
| "RANK_VALUE Ace = 14"

text \<open>
  \<^verbatim>\<open>createDeck\<close>: for each suit of \<open>SUITS\<close>, for each rank of \<open>RANKS\<close>, push one
  card. The id text \<^verbatim>\<open>`${rank}-${suit}-${Math.random()}`\<close> depends on the random
  source; the parameter \<open>mkId\<close> supplies it.
\<close>

definition createDeck :: "(Rank \<Rightarrow> Suit \<Rightarrow> string) \<Rightarrow> Card list" where
  "createDeck mkId =
     concat (map (\<lambda>s. map (\<lambda>r. \<lparr>suit = s, rank = r, card_id = mkId r s\<rparr>) RANKS) SUITS)"

text \<open>
  Arrays are JavaScript objects that a function can write to. To tell the array
  \<^verbatim>\<open>shuffleDeck\<close> is given from the one it returns, the shuffle is modelled over an
  explicit store: a list of arrays, an address being an index into it.
  \<^verbatim>\<open>[...deck]\<close> allocates a fresh array holding a copy.
\<close>

type_synonym heap = "Card list list"

definition alloc :: "heap \<Rightarrow> Card list \<Rightarrow> heap \<times> nat" where
  "alloc h xs = (h @ [xs], length h)"

text \<open>
  \<^verbatim>\<open>Math.floor(Math.random() * (i + 1))\<close>, for a draw \<open>r\<close> of \<^verbatim>\<open>Math.random()\<close>.
\<close>

definition randomIndex :: "real \<Rightarrow> nat \<Rightarrow> nat" where
  "randomIndex r i = nat \<lfloor>r * real (i + 1)\<rfloor>"

text \<open>
  The destructuring swap \<^verbatim>\<open>[a[i], a[j]] = [a[j], a[i]]\<close>: both reads happen before
  both writes.
\<close>

definition swap :: "Card list \<Rightarrow> nat \<Rightarrow> nat \<Rightarrow> Card list" where
  "swap xs i j = (xs[i := xs ! j])[j := xs ! i]"

text \<open>
  The loop \<^verbatim>\<open>for (let i = newDeck.length - 1; i > 0; i--)\<close>, writing through the
  address \<open>b\<close> of \<^verbatim>\<open>newDeck\<close>. \<open>rnd i\<close> is the value \<^verbatim>\<open>Math.random()\<close> returned in the
  iteration with index \<open>i\<close> (each iteration draws exactly once).
\<close>

fun shuffleLoop :: "(nat \<Rightarrow> real) \<Rightarrow> nat \<Rightarrow> nat \<Rightarrow> heap \<Rightarrow> heap" where
  "shuffleLoop rnd b 0 h = h"
| "shuffleLoop rnd b (Suc i) h =
     shuffleLoop rnd b i (h[b := swap (h ! b) (Suc i) (randomIndex (rnd (Suc i)) (Suc i))])"

definition shuffleDeck :: "(nat \<Rightarrow> real) \<Rightarrow> heap \<Rightarrow> nat \<Rightarrow> heap \<times> nat" where
  "shuffleDeck rnd h d =
     (let (h1, newDeck) = alloc h (h ! d)
      in (shuffleLoop rnd newDeck (length (h1 ! newDeck) - 1) h1, newDeck))"

section \<open>Hand evaluation (utils/pokerLogic.ts)\<close>

text \<open>
  The only run-time failure of the evaluator is a \<^verbatim>\<open>TypeError\<close>: reading \<^verbatim>\<open>.rank\<close>
  of \<^verbatim>\<open>xs[0]\<close> when \<^verbatim>\<open>xs\<close> is empty. \<open>DeckExhausted\<close> belongs to the table model
  below.
\<close>

datatype error = TypeError | DeckExhausted

text \<open>
  \<^verbatim>\<open>bestFive\<close> is an array of cards; the Two Pair branch stores
  \<^verbatim>\<open>filter(...)[0]\<close> in it, which is \<^verbatim>\<open>undefined\<close> when the filter is empty, so the
  elements are optional cards (\<open>None\<close> for \<^verbatim>\<open>undefined\<close>).
\<close>

record HandEvaluation =
  score :: int
  rankName :: string
  bestFive :: "Card option list"

text \<open>\<^verbatim>\<open>xs[0].rank\<close> and what follows it: a \<^verbatim>\<open>TypeError\<close> on the empty array.\<close>

definition withFirst :: "Card list \<Rightarrow> (Card \<Rightarrow> error + 'a) \<Rightarrow> error + 'a" where
  "withFirst xs f = (case xs of [] \<Rightarrow> Inl TypeError | c # _ \<Rightarrow> f c)"

text \<open>
  \<^verbatim>\<open>getFlushSuit\<close>: count the suits card by card and return the suit whose count
  reaches five first. \<^verbatim>\<open>counts[c.suit] || 0\<close> reads a missing key as 0.
\<close>

fun flushLoop :: "(Suit \<Rightarrow> nat) \<Rightarrow> Card list \<Rightarrow> Suit option" where
  "flushLoop counts [] = None"
| "flushLoop counts (c # cs) =
     (let counts' = counts(suit c := counts (suit c) + 1)
      in if counts' (suit c) \<ge> 5 then Some (suit c) else flushLoop counts' cs)"

definition getFlushSuit :: "Card list \<Rightarrow> Suit option" where
  "getFlushSuit cards = flushLoop (\<lambda>_. 0) cards"

text \<open>
  \<^verbatim>\<open>Array.from(new Set(xs))\<close>: the distinct elements in the order of their first
  occurrence.
\<close>

definition fromSet :: "'a list \<Rightarrow> 'a list" where
  "fromSet xs = fold (\<lambda>x acc. if x \<in> set acc then acc else acc @ [x]) xs []"

text \<open>
  The scan of \<^verbatim>\<open>getStraightHigh\<close>:
  \<^verbatim>\<open>for (let i = 0; i < uniqueValues.length - 1; i++)\<close> with the running \<^verbatim>\<open>streak\<close>.
  The read \<^verbatim>\<open>uniqueValues[i - 3]\<close> happens only when the streak has reached 4;
  the streak starts at 0 with \<open>i = 0\<close> and grows by at most one per step, so
  \<open>3 \<le> i\<close> there and the index is never negative.
\<close>

function straightScan :: "int list \<Rightarrow> nat \<Rightarrow> nat \<Rightarrow> int option" where
  "straightScan u i streak =
     (if i + 1 < length u then
        (if u ! i - u ! (i + 1) = 1 then
           (if streak + 1 \<ge> 4 then Some (u ! (i - 3))
            else straightScan u (i + 1) (streak + 1))
         else straightScan u (i + 1) 0)
      else None)"
  by pat_completeness auto
termination
  by (relation "measure (\<lambda>(u, i, streak). length u - i)") auto

declare straightScan.simps [simp del]

definition uniqueValues :: "Card list \<Rightarrow> int list" where
  "uniqueValues cards =
     (let u = sort_key (\<lambda>v. - v) (fromSet (map (\<lambda>c. RANK_VALUE (rank c)) cards))
      in if 14 \<in> set u then u @ [1] else u)"

definition getStraightHigh :: "Card list \<Rightarrow> int option" where
  "getStraightHigh cards = straightScan (uniqueValues cards) 0 0"

text \<open>
  \<^verbatim>\<open>getNOfAKind\<close> groups the cards by rank in an object keyed by the rank string
  and returns the first group of at least \<open>n\<close> cards that \<^verbatim>\<open>for (const rank in counts)\<close>
  meets. JavaScript enumerates the properties of an object with the integer-like
  keys first, in ascending numeric order, and the other string keys after them, in
  the order of their creation. The rank strings \<^verbatim>\<open>'2'\<close> to \<^verbatim>\<open>'10'\<close> are integer-like;
  \<^verbatim>\<open>'J'\<close>, \<^verbatim>\<open>'Q'\<close>, \<^verbatim>\<open>'K'\<close>, \<^verbatim>\<open>'A'\<close> are not.
\<close>

definition integerKeys :: "Rank list" where
  "integerKeys = [Two, Three, Four, Five, Six, Seven, Eight, Nine, Ten]"

definition forInOrder :: "Card list \<Rightarrow> Rank list" where
  "forInOrder cards =
     filter (\<lambda>r. r \<in> set (map rank cards)) integerKeys
     @ fromSet (filter (\<lambda>r. r \<notin> set integerKeys) (map rank cards))"

definition ofRank :: "Rank \<Rightarrow> Card list \<Rightarrow> Card list" where
  "ofRank r cards = filter (\<lambda>c. rank c = r) cards"

definition getNOfAKind :: "Card list \<Rightarrow> nat \<Rightarrow> Card list option" where
  "getNOfAKind cards n =
     (case find (\<lambda>r. length (ofRank r cards) \<ge> n) (forInOrder cards) of
        None \<Rightarrow> None
      | Some r \<Rightarrow> Some (take n (ofRank r cards)))"

text \<open>
  \<^verbatim>\<open>evaluateHand\<close>, in three segments that follow the source from its end:
  \<open>fromFlush\<close> is the code from \<^verbatim>\<open>// 4. Flush\<close> to the final \<^verbatim>\<open>return\<close>,
  \<open>fromQuads\<close> the code from \<^verbatim>\<open>// 2. Four of a Kind\<close> on, and \<open>evaluateHand\<close> the
  whole function. A branch that does not return falls through to the next segment.
  A number is truthy when it is not 0 and \<^verbatim>\<open>null\<close> is falsy; suit strings and
  arrays are always truthy.
\<close>

definition fromFlush ::
  "Card list \<Rightarrow> Suit option \<Rightarrow> int option \<Rightarrow> Card list option \<Rightarrow> error + HandEvaluation" where
  "fromFlush allCards flushSuit straightHigh trips =
    (case flushSuit of
       Some fs \<Rightarrow>
         (let flushCards = filter (\<lambda>c. suit c = fs) allCards
          in withFirst flushCards (\<lambda>f. Inr \<lparr>score = 500 + RANK_VALUE (rank f),
               rankName = ''Flush'', bestFive = map Some (take 5 flushCards)\<rparr>))
     | None \<Rightarrow>
     let fromTrips =
       (case trips of
          Some t \<Rightarrow>
            withFirst t (\<lambda>t0.
              let kickers = take 2 (filter (\<lambda>c. rank c \<noteq> rank t0) allCards)
              in Inr \<lparr>score = 300 + RANK_VALUE (rank t0), rankName = ''Three of a Kind'',
                      bestFive = map Some (t @ kickers)\<rparr>)
        | None \<Rightarrow>
        case getNOfAKind allCards 2 of
          Some pair1 \<Rightarrow>
            withFirst pair1 (\<lambda>p1.
              let remaining = filter (\<lambda>c. rank c \<noteq> rank p1) allCards
              in case getNOfAKind remaining 2 of
                   Some pair2 \<Rightarrow>
                     withFirst pair2 (\<lambda>p2.
                       let kicker =
                         (case filter (\<lambda>c. rank c \<noteq> rank p1 \<and> rank c \<noteq> rank p2) allCards of
                            [] \<Rightarrow> None | k # _ \<Rightarrow> Some k)
                       in Inr \<lparr>score = 200 + RANK_VALUE (rank p1), rankName = ''Two Pair'',
                               bestFive = map Some pair1 @ map Some pair2 @ [kicker]\<rparr>)
                 | None \<Rightarrow>
                     (let kickers = take 3 remaining
                      in Inr \<lparr>score = 100 + RANK_VALUE (rank p1), rankName = ''Pair'',
                              bestFive = map Some (pair1 @ kickers)\<rparr>))
        | None \<Rightarrow>
        withFirst allCards (\<lambda>a. Inr \<lparr>score = RANK_VALUE (rank a), rankName = ''High Card'',
          bestFive = map Some (take 5 allCards)\<rparr>))
     in
     case straightHigh of
       Some sh \<Rightarrow>
         if sh \<noteq> 0 then
           Inr \<lparr>score = 400 + sh, rankName = ''Straight'', bestFive = map Some (take 5 allCards)\<rparr>
         else fromTrips
     | None \<Rightarrow> fromTrips)"

definition fromQuads ::
  "Card list \<Rightarrow> Suit option \<Rightarrow> int option \<Rightarrow> error + HandEvaluation" where
  "fromQuads allCards flushSuit straightHigh =
    (case getNOfAKind allCards 4 of
       Some quads \<Rightarrow>
         withFirst quads (\<lambda>q. Inr \<lparr>score = 700 + RANK_VALUE (rank q),
           rankName = ''Four of a Kind'', bestFive = map Some quads\<rparr>)
     | None \<Rightarrow>
     let trips = getNOfAKind allCards 3;
         rest = fromFlush allCards flushSuit straightHigh trips
     in
     case trips of
       Some t \<Rightarrow>
         withFirst t (\<lambda>t0.
           let remaining = filter (\<lambda>c. rank c \<noteq> rank t0) allCards
           in case getNOfAKind remaining 2 of
                Some pair \<Rightarrow>
                  Inr \<lparr>score = 600 + RANK_VALUE (rank t0), rankName = ''Full House'',
                       bestFive = map Some (t @ pair)\<rparr>
              | None \<Rightarrow> rest)
     | None \<Rightarrow> rest)"

text \<open>
  \<^verbatim>\<open>Array.prototype.sort\<close> is stable, as \<open>sort_key\<close> is; the comparator
  \<^verbatim>\<open>RANK_VALUE[b.rank] - RANK_VALUE[a.rank]\<close> sorts by descending value.
\<close>

definition evaluateHand :: "Card list \<Rightarrow> Card list \<Rightarrow> error + HandEvaluation" where
  "evaluateHand holeCards communityCards =
    (let allCards = sort_key (\<lambda>c. - RANK_VALUE (rank c)) (holeCards @ communityCards);
         flushSuit = getFlushSuit allCards;
         straightHigh = getStraightHigh allCards;
         rest = fromQuads allCards flushSuit straightHigh
     in
     if flushSuit \<noteq> None \<and> straightHigh \<noteq> None \<and> straightHigh \<noteq> Some 0 then
       (let flushCards = filter (\<lambda>c. Some (suit c) = flushSuit) allCards
        in case getStraightHigh flushCards of
             Some sfHigh \<Rightarrow>
               if sfHigh \<noteq> 0 then
                 Inr \<lparr>score = 800 + sfHigh, rankName = ''Straight Flush'',
                      bestFive = map Some (take 5 flushCards)\<rparr>
               else rest
           | None \<Rightarrow> rest)
     else rest)"

section \<open>The table (types.ts, App.tsx)\<close>

datatype GamePhase = Setup | PreFlop | Flop | Turn | River | Showdown

datatype PlayerStatus = Active | Folded | AllIn | Busted

text \<open>
  Chips and bets are JavaScript numbers that only ever hold integers (buy-ins and
  blinds are integers, and the handlers only add and subtract them).
\<close>

record Player =
  player_id :: string
  name :: string
  chips :: int
  bet :: int
  hand :: "Card list"
  status :: PlayerStatus
  isDealer :: bool
  isSmallBlind :: bool
  isBigBlind :: bool

datatype LogType = LogInfo | LogAction | LogWinner | LogGemini

text \<open>
  A log entry also has an id and a timestamp taken from \<^verbatim>\<open>Date.now()\<close> and
  \<^verbatim>\<open>Math.random()\<close>; they are not modelled.
\<close>

record LogEntry =
  message :: string
  log_type :: LogType

text \<open>
  A pending \<^verbatim>\<open>setTimeout(nextPhase, ms)\<close>. The callback is the \<^verbatim>\<open>nextPhase\<close> of the
  render in which it was scheduled, and the \<^verbatim>\<open>handleShowdown\<close> it calls is the one of
  that render too: both read the state variables of that render, whatever has been
  set since. Recorded are the delay and the variables the two functions read:
  \<^verbatim>\<open>phase\<close>, \<^verbatim>\<open>deck\<close>, \<^verbatim>\<open>communityCards\<close>, \<^verbatim>\<open>pot\<close> and \<^verbatim>\<open>dealerIdx\<close>. They read
  \<^verbatim>\<open>players\<close> as well; within a hand every \<^verbatim>\<open>players\<close> array holds the same player
  objects in the same order (the handlers copy the array with \<^verbatim>\<open>[...players]\<close> and
  assign to the fields of the objects), so what the callback finds in its array is
  what the table holds when it runs.
\<close>

record Pending =
  delay :: nat
  seenPhase :: GamePhase
  seenDeck :: "Card list"
  seenCommunityCards :: "Card list"
  seenPot :: int
  seenDealerIdx :: nat

text \<open>
  The React state of \<^verbatim>\<open>App\<close>, as one record. The player objects are shared by
  every copy \<^verbatim>\<open>[...players]\<close> of the array and are mutated in place, so one list
  of players stands for all of them. \<open>winnerIdx\<close> is \<^verbatim>\<open>number | null\<close>
  (\<^verbatim>\<open>findIndex\<close> yields \<open>-1\<close> when nothing is found). \<open>timeouts\<close> holds the
  pending \<^verbatim>\<open>setTimeout(nextPhase, ms)\<close> callbacks.

  A handler is a function of the state its closure sees: the values it reads
  (\<^verbatim>\<open>pot\<close>, \<^verbatim>\<open>currentBet\<close>, \<^verbatim>\<open>phase\<close>, ...) are those of the argument, also after
  a \<^verbatim>\<open>setPot\<close> or \<^verbatim>\<open>setCurrentBet\<close> earlier in the same handler, and the state
  setters take effect in the result.
\<close>

record Table =
  phase :: GamePhase
  players :: "Player list"
  deck :: "Card list"
  communityCards :: "Card list"
  pot :: int
  currentBet :: int
  activePlayerIdx :: nat
  dealerIdx :: nat
  winnerIdx :: "int option"
  gameLogs :: "LogEntry list"
  showCards :: bool
  autoNextTimer :: "int option"
  timeouts :: "Pending list"

definition BIG_BLIND :: int where
  "BIG_BLIND = 20"

definition SMALL_BLIND :: int where
  "SMALL_BLIND = 10"

text \<open>The text of an integer in a template literal.\<close>

function digitsOf :: "nat \<Rightarrow> string" where
  "digitsOf n = (if n < 10 then [char_of (48 + n)]
                 else digitsOf (n div 10) @ [char_of (48 + n mod 10)])"
  by pat_completeness auto
termination
  by (relation "measure (\<lambda>n. n)") auto

declare digitsOf.simps [simp del]

definition showInt :: "int \<Rightarrow> string" where
  "showInt i = (if i < 0 then ''-'' @ digitsOf (nat (- i)) else digitsOf (nat i))"

definition addLog :: "string \<Rightarrow> LogType \<Rightarrow> Table \<Rightarrow> Table" where
  "addLog msg ty s = s\<lparr>gameLogs := gameLogs s @ [\<lparr>message = msg, log_type = ty\<rparr>]\<rparr>"

text \<open>An assignment to a field of the object at index \<open>i\<close> of an array.\<close>

definition mutate :: "Player list \<Rightarrow> nat \<Rightarrow> (Player \<Rightarrow> Player) \<Rightarrow> Player list" where
  "mutate ps i f = ps[i := f (ps ! i)]"

text \<open>
  \<open>k\<close> calls of \<^verbatim>\<open>pop()\<close>: the cards come off the end of the array, the last one
  first. On an array with fewer than \<open>k\<close> cards \<^verbatim>\<open>pop()!\<close> yields \<^verbatim>\<open>undefined\<close>, which
  the type \<open>Card\<close> excludes; the model reports \<open>DeckExhausted\<close> there. A deck of
  52 cards serves 26 players, and \<^verbatim>\<open>addPlayer\<close> admits nine.
\<close>

definition popCards :: "nat \<Rightarrow> Card list \<Rightarrow> error + (Card list \<times> Card list)" where
  "popCards k d =
     (if length d < k then Inl DeckExhausted
      else Inr (rev (drop (length d - k) d), take (length d - k) d))"

text \<open>\<^verbatim>\<open>resetPlayers.forEach(p => { p.hand = [newDeck.pop()!, newDeck.pop()!]; })\<close>\<close>

fun dealHands :: "Player list \<Rightarrow> Card list \<Rightarrow> error + (Player list \<times> Card list)" where
  "dealHands [] d = Inr ([], d)"
| "dealHands (p # ps) d =
     (case popCards 2 d of
        Inl e \<Rightarrow> Inl e
      | Inr (two, d') \<Rightarrow>
          (case dealHands ps d' of
             Inl e \<Rightarrow> Inl e
           | Inr (ps', d'') \<Rightarrow> Inr (p\<lparr>hand := two\<rparr> # ps', d'')))"

definition resetPlayer :: "Player \<Rightarrow> Player" where
  "resetPlayer p = p\<lparr>hand := [], bet := 0,
     status := (if chips p > 0 then Active else Busted),
     isDealer := False, isSmallBlind := False, isBigBlind := False\<rparr>"

text \<open>
  \<^verbatim>\<open>startNewHand(newDealerIdx, currentPlayers)\<close> of App.tsx. \<open>rnd\<close> and \<open>mkId\<close> are
  the random draws of \<^verbatim>\<open>shuffleDeck\<close> and the ids of \<^verbatim>\<open>createDeck\<close>; the fresh deck
  is shuffled in a store of its own. \<^verbatim>\<open>resetPlayers[0]?.name\<close> prints as
  \<^verbatim>\<open>undefined\<close> when nobody is left.
\<close>

definition startNewHand ::
  "(nat \<Rightarrow> real) \<Rightarrow> (Rank \<Rightarrow> Suit \<Rightarrow> string) \<Rightarrow> nat \<Rightarrow> Player list \<Rightarrow> Table \<Rightarrow> error + Table" where
  "startNewHand rnd mkId newDealerIdx currentPlayers s =
    (let s0 = s\<lparr>autoNextTimer := None\<rparr>;
         (h, a) = shuffleDeck rnd [createDeck mkId] 0;
         newDeck = h ! a;
         resetPlayers = filter (\<lambda>p. status p \<noteq> Busted) (map resetPlayer currentPlayers)
     in
     if length resetPlayers < 2 then
       Inr ((addLog (''Game Over! ''
               @ (case resetPlayers of [] \<Rightarrow> ''undefined'' | p # _ \<Rightarrow> name p)
               @ '' wins everything!'') LogWinner s0)
            \<lparr>phase := Setup, players := resetPlayers\<rparr>)
     else
     let n = length resetPlayers;
         sbIdx = (newDealerIdx + 1) mod n;
         bbIdx = (newDealerIdx + 2) mod n;
         ps1 = mutate resetPlayers (newDealerIdx mod n) (\<lambda>p. p\<lparr>isDealer := True\<rparr>);
         ps2 = mutate ps1 sbIdx (\<lambda>p. p\<lparr>isSmallBlind := True\<rparr>);
         ps3 = mutate ps2 bbIdx (\<lambda>p. p\<lparr>isBigBlind := True\<rparr>)
     in
     case dealHands ps3 newDeck of
       Inl e \<Rightarrow> Inl e
     | Inr (ps4, newDeck') \<Rightarrow>
     let sbAmt = min (chips (ps4 ! sbIdx)) SMALL_BLIND;
         ps5 = mutate ps4 sbIdx (\<lambda>p. p\<lparr>chips := chips p - sbAmt, bet := sbAmt\<rparr>);
         bbAmt = min (chips (ps5 ! bbIdx)) BIG_BLIND;
         ps6 = mutate ps5 bbIdx (\<lambda>p. p\<lparr>chips := chips p - bbAmt, bet := bbAmt\<rparr>);
         potStart = 0 + sbAmt + bbAmt
     in
     Inr (addLog ''New Hand. Blinds 10/20'' LogInfo
            (s0\<lparr>players := ps6, deck := newDeck', communityCards := [], pot := potStart,
                currentBet := BIG_BLIND, dealerIdx := newDealerIdx, winnerIdx := None,
                showCards := False, activePlayerIdx := (bbIdx + 1) mod n,
                phase := PreFlop\<rparr>)))"

text \<open>
  The two scanning loops of \<^verbatim>\<open>nextPhase\<close> and \<^verbatim>\<open>moveToNextPlayer\<close> have one shape:
  \<^verbatim>\<open>while (skip(ps[idx]) && cnt < ps.length) { idx = (idx + 1) % ps.length; cnt++; }\<close>
  (\<^verbatim>\<open>cnt\<close> is called \<^verbatim>\<open>attempts\<close> in one and \<^verbatim>\<open>loopCount\<close> in the other).
\<close>

function scanFrom :: "(Player \<Rightarrow> bool) \<Rightarrow> Player list \<Rightarrow> nat \<Rightarrow> nat \<Rightarrow> nat" where
  "scanFrom skip ps idx cnt =
     (if skip (ps ! idx) \<and> cnt < length ps
      then scanFrom skip ps ((idx + 1) mod length ps) (cnt + 1)
      else idx)"
  by pat_completeness auto
termination
  by (relation "measure (\<lambda>(skip, ps, idx, cnt). length ps - cnt)") auto

declare scanFrom.simps [simp del]

text \<open>\<^verbatim>\<open>Array.prototype.findIndex\<close>, with \<open>None\<close> for \<open>-1\<close>.\<close>

fun findIndex :: "('a \<Rightarrow> bool) \<Rightarrow> 'a list \<Rightarrow> nat option" where
  "findIndex P [] = None"
| "findIndex P (x # xs) = (if P x then Some 0 else map_option Suc (findIndex P xs))"

text \<open>
  The \<^verbatim>\<open>forEach\<close> of \<^verbatim>\<open>handleShowdown\<close>, with its three running variables
  \<^verbatim>\<open>bestScore\<close>, \<^verbatim>\<open>winner\<close> and \<^verbatim>\<open>winDesc\<close>. An exception of \<^verbatim>\<open>evaluateHand\<close> ends it.
\<close>

fun pickWinner ::
  "Card list \<Rightarrow> Player list \<Rightarrow> int \<times> Player option \<times> string
   \<Rightarrow> error + (int \<times> Player option \<times> string)" where
  "pickWinner cc [] acc = Inr acc"
| "pickWinner cc (p # ps) (bestScore, winner, winDesc) =
     (case evaluateHand (hand p) cc of
        Inl e \<Rightarrow> Inl e
      | Inr evalResult \<Rightarrow>
          if score evalResult > bestScore
          then pickWinner cc ps (score evalResult, Some p, rankName evalResult)
          else pickWinner cc ps (bestScore, winner, winDesc))"

text \<open>
  \<^verbatim>\<open>handleShowdown\<close>. The commentary of the external service arrives later and only
  adds a log line; the interval timer that starts the next hand belongs to the host.
  Both are left out. \<^verbatim>\<open>find\<close> and \<^verbatim>\<open>findIndex\<close> with the same predicate select the
  same player.
\<close>

definition handleShowdown :: "Table \<Rightarrow> error + Table" where
  "handleShowdown s =
    (let s1 = s\<lparr>phase := Showdown\<rparr>;
         activePlayers = filter (\<lambda>p. status p \<noteq> Folded \<and> status p \<noteq> Busted) (players s)
     in
     if length activePlayers = 0 then Inr s1
     else
     case pickWinner (communityCards s) activePlayers (- 1, None, []) of
       Inl e \<Rightarrow> Inl e
     | Inr (bestScore, winner, winDesc) \<Rightarrow>
     (case winner of
        None \<Rightarrow> Inr s1
      | Some w \<Rightarrow>
          let wIdx = findIndex (\<lambda>p. player_id p = player_id w) (players s);
              newPlayers = (case wIdx of
                              None \<Rightarrow> players s
                            | Some i \<Rightarrow> mutate (players s) i (\<lambda>p. p\<lparr>chips := chips p + pot s\<rparr>))
          in Inr (addLog ''Gemini is analyzing...'' LogInfo
                   (addLog (name w @ '' wins '' @ showInt (pot s) @ '' chips with '' @ winDesc @ ''!'')
                      LogWinner
                      (s1\<lparr>winnerIdx := Some (case wIdx of None \<Rightarrow> - 1 | Some i \<Rightarrow> int i),
                          players := newPlayers\<rparr>))
                  \<lparr>autoNextTimer := Some 8\<rparr>)))"

text \<open>
  \<^verbatim>\<open>nextPhase\<close>. With no player at all, \<^verbatim>\<open>newPlayers[NaN].status\<close> is a
  \<^verbatim>\<open>TypeError\<close>. In the last branch \<^verbatim>\<open>handleShowdown\<close> runs after the bets, the
  current bet and the active index have been reset.
\<close>

definition nextPhase :: "Table \<Rightarrow> error + Table" where
  "nextPhase s =
    (let newPlayers = map (\<lambda>p. p\<lparr>bet := 0\<rparr>) (players s) in
     if newPlayers = [] then Inl TypeError
     else
     let nextActive =
           scanFrom (\<lambda>p. status p \<noteq> Active \<and> status p \<noteq> AllIn) newPlayers
             ((dealerIdx s + 1) mod length newPlayers) 0;
         s1 = s\<lparr>players := newPlayers, currentBet := 0, activePlayerIdx := nextActive\<rparr>
     in
     if phase s = PreFlop then
       (case popCards 3 (deck s) of
          Inl e \<Rightarrow> Inl e
        | Inr (three, currentDeck) \<Rightarrow>
            Inr ((addLog ''The Flop'' LogInfo (s1\<lparr>phase := Flop\<rparr>))
                 \<lparr>communityCards := communityCards s @ three, deck := currentDeck\<rparr>))
     else if phase s = Flop then
       (case popCards 1 (deck s) of
          Inl e \<Rightarrow> Inl e
        | Inr (one, currentDeck) \<Rightarrow>
            Inr ((addLog ''The Turn'' LogInfo (s1\<lparr>phase := Turn\<rparr>))
                 \<lparr>communityCards := communityCards s @ one, deck := currentDeck\<rparr>))
     else if phase s = Turn then
       (case popCards 1 (deck s) of
          Inl e \<Rightarrow> Inl e
        | Inr (one, currentDeck) \<Rightarrow>
            Inr ((addLog ''The River'' LogInfo (s1\<lparr>phase := River\<rparr>))
                 \<lparr>communityCards := communityCards s @ one, deck := currentDeck\<rparr>))
     else handleShowdown s1)"

text \<open>
  \<^verbatim>\<open>setTimeout(nextPhase, ms)\<close> in a handler whose closure sees the state \<open>s\<close>.
\<close>

definition schedule :: "nat \<Rightarrow> Table \<Rightarrow> Table" where
  "schedule ms s = s\<lparr>timeouts := timeouts s
     @ [\<lparr>delay = ms, seenPhase = phase s, seenDeck = deck s,
         seenCommunityCards = communityCards s, seenPot = pot s,
         seenDealerIdx = dealerIdx s\<rparr>]\<rparr>"

text \<open>
  \<^verbatim>\<open>moveToNextPlayer\<close>. It either schedules \<^verbatim>\<open>nextPhase\<close> and leaves the active
  index alone, or sets the active index to the player its loop stopped at.
\<close>

definition moveToNextPlayer :: "Table \<Rightarrow> error + Table" where
  "moveToNextPlayer s =
    (if players s = [] then Inl TypeError
     else
     let s1 = s\<lparr>showCards := False\<rparr>;
         nextIdx =
           scanFrom (\<lambda>p. status p = Folded \<or> status p = Busted \<or> status p = AllIn) (players s)
             ((activePlayerIdx s + 1) mod length (players s)) 0;
         activePlayers = filter (\<lambda>p. status p = Active) (players s);
         allInPlayers = filter (\<lambda>p. status p = AllIn) (players s)
     in
     if length activePlayers = 0 \<or> (length activePlayers = 1 \<and> length allInPlayers > 0) then
       Inr (schedule 1000 s1)
     else
     let betsMatch = list_all (\<lambda>p. bet p = currentBet s) activePlayers in
     if betsMatch \<and> (phase s \<noteq> PreFlop \<or> currentBet s > BIG_BLIND
                      \<or> list_all (\<lambda>p. bet p > 0) activePlayers) then
       Inr (schedule 500 s1)
     else Inr (s1\<lparr>activePlayerIdx := nextIdx\<rparr>))"

text \<open>
  \<^verbatim>\<open>handleFold\<close>. Reading \<^verbatim>\<open>.name\<close> of \<^verbatim>\<open>newPlayers[activePlayerIdx]\<close> fails when the
  index is out of range. The countdown to the next hand belongs to the host.
\<close>

definition handleFold :: "Table \<Rightarrow> error + Table" where
  "handleFold s =
    (if activePlayerIdx s \<ge> length (players s) then Inl TypeError
     else
     let folderName = name (players s ! activePlayerIdx s);
         newPlayers = mutate (players s) (activePlayerIdx s) (\<lambda>p. p\<lparr>status := Folded\<rparr>);
         s1 = addLog (folderName @ '' folds.'') LogAction (s\<lparr>players := newPlayers\<rparr>);
         remaining = filter (\<lambda>p. status p \<noteq> Folded \<and> status p \<noteq> Busted) newPlayers
     in
     case remaining of
       [winner] \<Rightarrow>
         (case findIndex (\<lambda>p. player_id p = player_id winner) newPlayers of
            None \<Rightarrow> Inl TypeError
          | Some winIdx \<Rightarrow>
              let paid = mutate newPlayers winIdx
                           (\<lambda>p. p\<lparr>chips := chips p + (pot s + foldl (\<lambda>acc p. acc + bet p) 0 newPlayers)\<rparr>)
              in Inr ((addLog (name winner @ '' wins by default!'') LogWinner
                         (s1\<lparr>winnerIdx := Some (int winIdx),
                             players := map (\<lambda>p. p\<lparr>bet := 0\<rparr>) paid,
                             pot := 0, phase := Showdown\<rparr>))
                      \<lparr>autoNextTimer := Some 4\<rparr>))
     | _ \<Rightarrow> moveToNextPlayer s1)"

text \<open>\<^verbatim>\<open>handleCheckCall\<close>. \<^verbatim>\<open>moveToNextPlayer\<close> runs before \<^verbatim>\<open>setPot\<close> takes effect.\<close>

definition handleCheckCall :: "Table \<Rightarrow> error + Table" where
  "handleCheckCall s =
    (if activePlayerIdx s \<ge> length (players s) then Inl TypeError
     else
     let player = players s ! activePlayerIdx s;
         amountToCall = currentBet s - bet player
     in
     if amountToCall \<ge> chips player then
       (case moveToNextPlayer
               (addLog (name player @ '' goes ALL IN!'') LogAction
                  (s\<lparr>players := mutate (players s) (activePlayerIdx s)
                        (\<lambda>p. p\<lparr>bet := bet p + chips p, chips := 0, status := AllIn\<rparr>)\<rparr>)) of
          Inl e \<Rightarrow> Inl e
        | Inr s' \<Rightarrow> Inr (s'\<lparr>pot := pot s + chips player\<rparr>))
     else
       (case moveToNextPlayer
               (addLog (name player @ '' '' @ (if amountToCall = 0 then ''checks'' else ''calls'') @ ''.'')
                  LogAction
                  (s\<lparr>players := mutate (players s) (activePlayerIdx s)
                        (\<lambda>p. p\<lparr>chips := chips p - amountToCall, bet := bet p + amountToCall\<rparr>)\<rparr>)) of
          Inl e \<Rightarrow> Inl e
        | Inr s' \<Rightarrow> Inr (s'\<lparr>pot := pot s + amountToCall\<rparr>)))"

text \<open>
  \<^verbatim>\<open>handleRaise(amount)\<close>. The rejection is a bare \<^verbatim>\<open>return\<close>: the handler ends
  normally, with no setter called and nothing logged. On success
  \<^verbatim>\<open>moveToNextPlayer\<close> still reads the \<^verbatim>\<open>currentBet\<close> from before the raise.
\<close>

definition handleRaise :: "int \<Rightarrow> Table \<Rightarrow> error + Table" where
  "handleRaise amount s =
    (if activePlayerIdx s \<ge> length (players s) then Inl TypeError
     else
     let pRef = players s ! activePlayerIdx s;
         totalBet = currentBet s + amount;
         needed = totalBet - bet pRef
     in
     if needed > chips pRef then Inr s
     else
       (case moveToNextPlayer
               (addLog (name pRef @ '' raises to '' @ showInt totalBet @ ''.'') LogAction
                  (s\<lparr>players := mutate (players s) (activePlayerIdx s)
                        (\<lambda>p. p\<lparr>chips := chips p - needed, bet := totalBet\<rparr>)\<rparr>)) of
          Inl e \<Rightarrow> Inl e
        | Inr s' \<Rightarrow> Inr (s'\<lparr>pot := pot s + needed, currentBet := totalBet\<rparr>)))"

text \<open>
  The later variants of App.tsx (src/unnamed/part_001, lines 331 to 414, and
  part_002, lines 101 to 219) keep the busted players in the list and step over
  them with loops of the form
  \<^verbatim>\<open>while (resetPlayers[idx].status === PlayerStatus.Busted) idx = (idx + 1) % n;\<close>
  which have no bound of their own: a loop that does not return has the value
  \<open>None\<close>.
\<close>

partial_function (option) skipBusted :: "Player list \<Rightarrow> nat \<Rightarrow> nat option" where
  "skipBusted ps idx =
     (if status (ps ! idx) = Busted then skipBusted ps ((idx + 1) mod length ps) else Some idx)"

declare skipBusted.simps [code]

text \<open>
  \<^verbatim>\<open>resetPlayers.forEach(p => { if (p.status !== PlayerStatus.Busted) p.hand = [...]; })\<close>
\<close>

fun dealActive :: "Player list \<Rightarrow> Card list \<Rightarrow> error + (Player list \<times> Card list)" where
  "dealActive [] d = Inr ([], d)"
| "dealActive (p # ps) d =
     (if status p \<noteq> Busted then
        (case popCards 2 d of
           Inl e \<Rightarrow> Inl e
         | Inr (two, d') \<Rightarrow>
             (case dealActive ps d' of
                Inl e \<Rightarrow> Inl e
              | Inr (ps', d'') \<Rightarrow> Inr (p\<lparr>hand := two\<rparr> # ps', d'')))
      else
        (case dealActive ps d of
           Inl e \<Rightarrow> Inl e
         | Inr (ps', d'') \<Rightarrow> Inr (p # ps', d'')))"

text \<open>
  \<^verbatim>\<open>startNewHand\<close> of those variants, with the text of part_001 (part_002 differs in
  the wording of the Game Over message only). With exactly two players left the
  dealer is flagged small blind and the next player big blind. \<^verbatim>\<open>find(...)!\<close> of a
  flag nobody carries is \<^verbatim>\<open>undefined\<close>, whose \<^verbatim>\<open>.chips\<close> is a \<^verbatim>\<open>TypeError\<close>;
  \<^verbatim>\<open>winner?.name || 'Everyone'\<close> prints \<^verbatim>\<open>Everyone\<close> for no winner and for an empty
  name.
\<close>

definition startNewHand_seats ::
  "(nat \<Rightarrow> real) \<Rightarrow> (Rank \<Rightarrow> Suit \<Rightarrow> string) \<Rightarrow> nat \<Rightarrow> Player list \<Rightarrow> Table
   \<Rightarrow> (error + Table) option" where
  "startNewHand_seats rnd mkId newDealerIdx currentPlayers s =
    (let s0 = s\<lparr>autoNextTimer := None\<rparr>;
         (h, a) = shuffleDeck rnd [createDeck mkId] 0;
         newDeck = h ! a;
         resetPlayers = map resetPlayer currentPlayers;
         activeCount = length (filter (\<lambda>p. status p \<noteq> Busted) resetPlayers)
     in
     if activeCount < 2 then
       Some (Inr ((addLog (''Game Over! ''
               @ (case find (\<lambda>p. status p \<noteq> Busted) resetPlayers of
                    None \<Rightarrow> ''Everyone''
                  | Some w \<Rightarrow> if name w = [] then ''Everyone'' else name w)
               @ '' wins!'') LogWinner s0)
            \<lparr>phase := Setup, players := resetPlayers\<rparr>))
     else
     let n = length resetPlayers in
     case skipBusted resetPlayers (newDealerIdx mod n) of
       None \<Rightarrow> None
     | Some actualDealerIdx \<Rightarrow>
     let ps0 = map (\<lambda>p. p\<lparr>isDealer := False, isSmallBlind := False, isBigBlind := False\<rparr>)
                 resetPlayers;
         ps1 = mutate ps0 actualDealerIdx (\<lambda>p. p\<lparr>isDealer := True\<rparr>)
     in
     case skipBusted ps1 ((actualDealerIdx + 1) mod n) of
       None \<Rightarrow> None
     | Some sbIdx \<Rightarrow>
     case skipBusted ps1 ((sbIdx + 1) mod n) of
       None \<Rightarrow> None
     | Some bbIdx \<Rightarrow>
     let ps2 = (if activeCount = 2
                then mutate (mutate ps1 actualDealerIdx (\<lambda>p. p\<lparr>isSmallBlind := True\<rparr>))
                       sbIdx (\<lambda>p. p\<lparr>isBigBlind := True\<rparr>)
                else mutate (mutate ps1 sbIdx (\<lambda>p. p\<lparr>isSmallBlind := True\<rparr>))
                       bbIdx (\<lambda>p. p\<lparr>isBigBlind := True\<rparr>))
     in
     case dealActive ps2 newDeck of
       Inl e \<Rightarrow> Some (Inl e)
     | Inr (ps3, newDeck') \<Rightarrow>
     case findIndex isSmallBlind ps3 of
       None \<Rightarrow> Some (Inl TypeError)
     | Some sbAt \<Rightarrow>
     case findIndex isBigBlind ps3 of
       None \<Rightarrow> Some (Inl TypeError)
     | Some bbAt \<Rightarrow>
     let sbAmt = min (chips (ps3 ! sbAt)) SMALL_BLIND;
         ps4 = mutate ps3 sbAt (\<lambda>p. p\<lparr>chips := chips p - sbAmt, bet := sbAmt\<rparr>);
         bbAmt = min (chips (ps4 ! bbAt)) BIG_BLIND;
         ps5 = mutate ps4 bbAt (\<lambda>p. p\<lparr>chips := chips p - bbAmt, bet := bbAmt\<rparr>);
         potStart = 0 + sbAmt + bbAmt
     in
     case skipBusted ps5 ((bbAt + 1) mod n) of
       None \<Rightarrow> None
     | Some firstActionIdx \<Rightarrow>
     Some (Inr (addLog ''New Hand. Blinds 10/20'' LogInfo
            (s0\<lparr>players := ps5, deck := newDeck', communityCards := [], pot := potStart,
                currentBet := BIG_BLIND, dealerIdx := actualDealerIdx, winnerIdx := None,
                showCards := False, activePlayerIdx := firstActionIdx,
                phase := PreFlop\<rparr>))))"

text \<open>
  A pending callback runs. \<^verbatim>\<open>nextPhase\<close> and the \<^verbatim>\<open>handleShowdown\<close> it calls read
  \<^verbatim>\<open>phase\<close>, \<^verbatim>\<open>deck\<close>, \<^verbatim>\<open>communityCards\<close>, \<^verbatim>\<open>pot\<close> and \<^verbatim>\<open>dealerIdx\<close> as their render
  had them and the players as they are now, and their setters act on the table as
  it is now. \<^verbatim>\<open>setDeck\<close> and \<^verbatim>\<open>setCommunityCards\<close> are called in the three dealing
  branches of \<^verbatim>\<open>nextPhase\<close> only, and neither function calls \<^verbatim>\<open>setPot\<close> or
  \<^verbatim>\<open>setDealerIdx\<close>: what is not set keeps the value the table has.
\<close>

definition runPending :: "Pending \<Rightarrow> Table \<Rightarrow> error + Table" where
  "runPending c s =
     (case nextPhase (s\<lparr>phase := seenPhase c, deck := seenDeck c,
                        communityCards := seenCommunityCards c, pot := seenPot c,
                        dealerIdx := seenDealerIdx c\<rparr>) of
        Inl e \<Rightarrow> Inl e
      | Inr r \<Rightarrow>
          Inr (if seenPhase c = PreFlop \<or> seenPhase c = Flop \<or> seenPhase c = Turn
               then r\<lparr>pot := pot s, dealerIdx := dealerIdx s\<rparr>
               else r\<lparr>pot := pot s, dealerIdx := dealerIdx s, deck := deck s,
                      communityCards := communityCards s\<rparr>))"

text \<open>
  What can happen to a table during a hand: one of the three player actions, or
  one of the pending callbacks running. \<open>NextPhaseE k\<close> runs the callback at
  position \<open>k\<close> of the pending ones (the delays are 500 and 1000 ms, so a callback
  scheduled later can run earlier) and does nothing when there is none. A run
  stops at the first exception.
\<close>

datatype event = FoldE | CheckCallE | RaiseE int | NextPhaseE nat

fun applyEvent :: "event \<Rightarrow> Table \<Rightarrow> error + Table" where
  "applyEvent FoldE s = handleFold s"
| "applyEvent CheckCallE s = handleCheckCall s"
| "applyEvent (RaiseE amount) s = handleRaise amount s"
| "applyEvent (NextPhaseE k) s =
     (if k < length (timeouts s)
      then runPending (timeouts s ! k)
             (s\<lparr>timeouts := take k (timeouts s) @ drop (Suc k) (timeouts s)\<rparr>)
      else Inr s)"

fun run :: "event list \<Rightarrow> Table \<Rightarrow> error + Table" where
  "run [] s = Inr s"
| "run (e # es) s = (case applyEvent e s of Inl err \<Rightarrow> Inl err | Inr s' \<Rightarrow> run es s')"

section \<open>Notions used to state the properties\<close>

text \<open>Shorthands for writing concrete cards, players and tables.\<close>

abbreviation mkCard :: "Rank \<Rightarrow> Suit \<Rightarrow> Card" where
  "mkCard r s \<equiv> \<lparr>suit = s, rank = r, card_id = []\<rparr>"

abbreviation mkPlayer :: "string \<Rightarrow> int \<Rightarrow> int \<Rightarrow> PlayerStatus \<Rightarrow> Card list \<Rightarrow> Player" where
  "mkPlayer nm c b st hnd \<equiv> \<lparr>player_id = nm, name = nm, chips = c, bet = b, hand = hnd,
     status = st, isDealer = False, isSmallBlind = False, isBigBlind = False\<rparr>"

abbreviation mkTable ::
  "GamePhase \<Rightarrow> Player list \<Rightarrow> Card list \<Rightarrow> Card list \<Rightarrow> int \<Rightarrow> int \<Rightarrow> nat \<Rightarrow> Table" where
  "mkTable ph ps dk cc pt cb ai \<equiv> \<lparr>phase = ph, players = ps, deck = dk, communityCards = cc,
     pot = pt, currentBet = cb, activePlayerIdx = ai, dealerIdx = 0, winnerIdx = None,
     gameLogs = [], showCards = False, autoNextTimer = None, timeouts = []\<rparr>"

text \<open>
  The base of each category in the score, as the comment above \<^verbatim>\<open>evaluateHand\<close> lists
  them: 800+ Straight Flush, 700+ Quads, 600+ Full House, 500+ Flush, 400+
  Straight, 300+ Trips, 200+ Two Pair, 100+ Pair, 0+ High Card.
\<close>

definition categoryBase :: "string \<Rightarrow> int" where
  "categoryBase n =
     (if n = ''Straight Flush'' then 800 else if n = ''Four of a Kind'' then 700
      else if n = ''Full House'' then 600 else if n = ''Flush'' then 500
      else if n = ''Straight'' then 400 else if n = ''Three of a Kind'' then 300
      else if n = ''Two Pair'' then 200 else if n = ''Pair'' then 100 else 0)"

text \<open>The rank of the first card of \<^verbatim>\<open>bestFive\<close>: the rank of the group listed first.\<close>

definition primaryRank :: "HandEvaluation \<Rightarrow> Rank option" where
  "primaryRank e = (case bestFive e of Some c # _ \<Rightarrow> Some (rank c) | _ \<Rightarrow> None)"

definition scoredByFirst :: "HandEvaluation \<Rightarrow> bool" where
  "scoredByFirst e \<longleftrightarrow>
     (\<exists>r. primaryRank e = Some r \<and> score e = categoryBase (rankName e) + RANK_VALUE r)"

text \<open>The \<^verbatim>\<open>bestFive\<close> of an evaluation holds exactly five cards, all from the given ones.\<close>

definition fiveOf :: "Card list \<Rightarrow> HandEvaluation \<Rightarrow> bool" where
  "fiveOf cards e \<longleftrightarrow> length (bestFive e) = 5 \<and> set (bestFive e) \<subseteq> Some ` set cards"

text \<open>The rank values present in a list of cards, as a set and in descending order.\<close>

definition valuesOf :: "Card list \<Rightarrow> int set" where
  "valuesOf cards = (\<lambda>c. RANK_VALUE (rank c)) ` set cards"

definition descValues :: "Card list \<Rightarrow> int list" where
  "descValues cards = sort_key (\<lambda>v. - v) (fromSet (map (\<lambda>c. RANK_VALUE (rank c)) cards))"

text \<open>
  The score \<^verbatim>\<open>evaluateHand(p.hand, communityCards).score\<close> of a player at showdown
  (\<open>-1\<close>, the initial \<^verbatim>\<open>bestScore\<close>, where the evaluation throws), and the players
  that \<^verbatim>\<open>handleShowdown\<close> evaluates.
\<close>

definition scoreAt :: "Card list \<Rightarrow> Player \<Rightarrow> int" where
  "scoreAt cc p = (case evaluateHand (hand p) cc of Inr e \<Rightarrow> score e | Inl _ \<Rightarrow> - 1)"

definition contender :: "Player \<Rightarrow> bool" where
  "contender p \<longleftrightarrow> status p \<noteq> Folded \<and> status p \<noteq> Busted"

text \<open>The pot together with all stacks.\<close>

abbreviation bank :: "Table \<Rightarrow> int" where
  "bank s \<equiv> pot s + sum_list (map chips (players s))"

text \<open>
  A run during which the hand goes on: every event returns, and the phase is not
  Showdown after any of them.
\<close>

fun handGoesOn :: "event list \<Rightarrow> Table \<Rightarrow> bool" where
  "handGoesOn [] s = True"
| "handGoesOn (e # es) s =
     (case applyEvent e s of
        Inl err \<Rightarrow> False
      | Inr s' \<Rightarrow> phase s' \<noteq> Showdown \<and> handGoesOn es s')"

text \<open>
  Going round the table from position \<open>start\<close>, \<open>i\<close> is the first position whose
  player satisfies \<open>ok\<close>.
\<close>

definition firstFrom :: "(Player \<Rightarrow> bool) \<Rightarrow> Player list \<Rightarrow> nat \<Rightarrow> nat \<Rightarrow> bool" where
  "firstFrom ok ps start i \<longleftrightarrow>
     (\<exists>d \<in> set [0..<length ps].
        i = (start + d) mod length ps \<and> ok (ps ! i)
      \<and> (\<forall>d' \<in> set [0..<d]. \<not> ok (ps ! ((start + d') mod length ps))))"

text \<open>
  The active index after a player action is the one before it, or the first Active
  player after it.
\<close>

definition turnOk :: "Table \<Rightarrow> Table \<Rightarrow> bool" where
  "turnOk s s' \<longleftrightarrow> activePlayerIdx s' = activePlayerIdx s
       \<or> firstFrom (\<lambda>p. status p = Active) (players s') (activePlayerIdx s + 1)
            (activePlayerIdx s')"

text \<open>
  The cards of a hand hold five values in a row, the ace counting as 14 and as 1.
\<close>

definition lowValues :: "Card list \<Rightarrow> int set" where
  "lowValues cards = valuesOf cards \<union> (if 14 \<in> valuesOf cards then {1} else {})"

definition fiveInARow :: "Card list \<Rightarrow> bool" where
  "fiveInARow cards \<longleftrightarrow>
     (\<exists>h \<in> set [5..14]. \<forall>k \<in> set [0..4]. h - k \<in> lowValues cards)"

subsection \<open>Example tables\<close>

text \<open>
  Two players before the flop, the blinds posted, five cards left in the deck and
  the small blind B to act; after B has called; on the flop that follows the call;
  after B has raised instead of calling.
\<close>

definition preflopExample :: Table where
  "preflopExample = mkTable PreFlop
     [mkPlayer ''A'' 980 20 Active [], mkPlayer ''B'' 990 10 Active []]
     [mkCard Two Clubs, mkCard Three Clubs, mkCard Four Hearts, mkCard Nine Spades,
      mkCard King Diamonds] [] 30 20 1"

definition calledExample :: Table where
  "calledExample = (mkTable PreFlop
     [mkPlayer ''A'' 980 20 Active [], mkPlayer ''B'' 980 20 Active []]
     [mkCard Two Clubs, mkCard Three Clubs, mkCard Four Hearts, mkCard Nine Spades,
      mkCard King Diamonds] [] 40 20 1)
     \<lparr>gameLogs := [\<lparr>message = ''B calls.'', log_type = LogAction\<rparr>],
      timeouts := [\<lparr>delay = 500, seenPhase = PreFlop,
        seenDeck = [mkCard Two Clubs, mkCard Three Clubs, mkCard Four Hearts,
          mkCard Nine Spades, mkCard King Diamonds],
        seenCommunityCards = [], seenPot = 30, seenDealerIdx = 0\<rparr>]\<rparr>"

definition flopExample :: Table where
  "flopExample = (mkTable Flop
     [mkPlayer ''A'' 980 0 Active [], mkPlayer ''B'' 980 0 Active []]
     [mkCard Two Clubs, mkCard Three Clubs]
     [mkCard King Diamonds, mkCard Nine Spades, mkCard Four Hearts] 40 0 1)
     \<lparr>gameLogs := [\<lparr>message = ''B calls.'', log_type = LogAction\<rparr>,
                   \<lparr>message = ''The Flop'', log_type = LogInfo\<rparr>]\<rparr>"

definition raisedExample :: Table where
  "raisedExample = (mkTable PreFlop
     [mkPlayer ''A'' 980 20 Active [], mkPlayer ''B'' 960 40 Active []]
     [mkCard Two Clubs, mkCard Three Clubs, mkCard Four Hearts, mkCard Nine Spades,
      mkCard King Diamonds] [] 60 40 0)
     \<lparr>gameLogs := [\<lparr>message = ''B raises to 40.'', log_type = LogAction\<rparr>]\<rparr>"

text \<open>
  Two players on the river who both play the straight on the board, with a pot of
  101 and no bet on this street: A to act; after A has checked; after the showdown.
\<close>

definition riverExample :: Table where
  "riverExample = mkTable River
     [mkPlayer ''A'' 500 0 Active [mkCard Two Hearts, mkCard Three Diamonds],
      mkPlayer ''B'' 500 0 Active [mkCard Two Diamonds, mkCard Three Clubs]] []
     [mkCard Ace Spades, mkCard King Hearts, mkCard Queen Diamonds, mkCard Jack Clubs,
      mkCard Ten Spades] 101 0 0"

definition riverChecked :: Table where
  "riverChecked = riverExample
     \<lparr>gameLogs := [\<lparr>message = ''A checks.'', log_type = LogAction\<rparr>],
      timeouts := [\<lparr>delay = 500, seenPhase = River, seenDeck = [],
        seenCommunityCards = [mkCard Ace Spades, mkCard King Hearts, mkCard Queen Diamonds,
          mkCard Jack Clubs, mkCard Ten Spades],
        seenPot = 101, seenDealerIdx = 0\<rparr>]\<rparr>"

definition riverPaid :: Table where
  "riverPaid = (mkTable Showdown
     [mkPlayer ''A'' 601 0 Active [mkCard Two Hearts, mkCard Three Diamonds],
      mkPlayer ''B'' 500 0 Active [mkCard Two Diamonds, mkCard Three Clubs]] []
     [mkCard Ace Spades, mkCard King Hearts, mkCard Queen Diamonds, mkCard Jack Clubs,
      mkCard Ten Spades] 101 0 1)
     \<lparr>winnerIdx := Some 0,
      gameLogs := [\<lparr>message = ''A checks.'', log_type = LogAction\<rparr>,
                   \<lparr>message = ''A wins 101 chips with Straight!'', log_type = LogWinner\<rparr>,
                   \<lparr>message = ''Gemini is analyzing...'', log_type = LogInfo\<rparr>],
      autoNextTimer := Some 8\<rparr>"

text \<open>
  The same two players on the river, A having bet 50 into a pot of 50 and B to act.
\<close>

definition riverBet :: Table where
  "riverBet = mkTable River
     [mkPlayer ''A'' 450 50 Active [mkCard Two Hearts, mkCard Three Diamonds],
      mkPlayer ''B'' 500 0 Active [mkCard Two Diamonds, mkCard Three Clubs]] []
     [mkCard Ace Spades, mkCard King Hearts, mkCard Queen Diamonds, mkCard Jack Clubs,
      mkCard Ten Spades] 100 50 1"

text \<open>
  Three players with the button at seat 1 when a street ends: seat 2 has folded,
  seat 0 is all-in, seat 1 is Active; one callback is pending.
\<close>

definition buttonExample :: Table where
  "buttonExample = (mkTable PreFlop
     [mkPlayer ''A'' 0 20 AllIn [], mkPlayer ''B'' 980 20 Active [],
      mkPlayer ''C'' 1000 0 Folded []]
     [mkCard Two Clubs, mkCard Three Clubs, mkCard Four Hearts, mkCard Nine Spades,
      mkCard King Diamonds] [] 40 20 1)
     \<lparr>dealerIdx := 1,
      timeouts := [\<lparr>delay = 1000, seenPhase = PreFlop,
        seenDeck = [mkCard Two Clubs, mkCard Three Clubs, mkCard Four Hearts,
          mkCard Nine Spades, mkCard King Diamonds],
        seenCommunityCards = [], seenPot = 40, seenDealerIdx = 1\<rparr>]\<rparr>"

definition buttonFlop :: Table where
  "buttonFlop = (mkTable Flop
     [mkPlayer ''A'' 0 0 AllIn [], mkPlayer ''B'' 980 0 Active [],
      mkPlayer ''C'' 1000 0 Folded []]
     [mkCard Two Clubs, mkCard Three Clubs]
     [mkCard King Diamonds, mkCard Nine Spades, mkCard Four Hearts] 40 0 0)
     \<lparr>dealerIdx := 1, gameLogs := [\<lparr>message = ''The Flop'', log_type = LogInfo\<rparr>]\<rparr>"

section \<open>Deck properties\<close>

lemma randomIndex_le:
  assumes "0 \<le> r" and "r < 1"
  shows "randomIndex r i \<le> i"
proof -
  have "r * real (i + 1) < real (i + 1)"
    using assms by (simp add: mult_less_cancel_right2)
  then have "\<lfloor>r * real (i + 1)\<rfloor> < int (i + 1)"
    by (simp add: floor_less_iff)
  then show ?thesis
    by (simp add: randomIndex_def)
qed

lemma mset_swap_cards:
  "i < length xs \<Longrightarrow> j < length xs \<Longrightarrow> mset (swap xs i j) = mset xs"
  by (simp add: swap_def mset_swap)

lemma length_swap [simp]: "length (swap xs i j) = length xs"
  by (simp add: swap_def)

lemma shuffleLoop_length [simp]: "length (shuffleLoop rnd b i h) = length h"
  by (induction i arbitrary: h) simp_all

lemma shuffleLoop_other:
  "a \<noteq> b \<Longrightarrow> shuffleLoop rnd b i h ! a = h ! a"
  by (induction i arbitrary: h) simp_all

lemma shuffleLoop_mset:
  assumes "\<forall>k. 0 \<le> rnd k \<and> rnd k < 1" and "b < length h" and "i < length (h ! b)"
  shows "mset (shuffleLoop rnd b i h ! b) = mset (h ! b)"
  using assms(2,3)
proof (induction i arbitrary: h)
  case 0
  then show ?case by simp
next
  case (Suc i)
  let ?j = "randomIndex (rnd (Suc i)) (Suc i)"
  let ?h = "h[b := swap (h ! b) (Suc i) ?j]"
  have j: "?j < length (h ! b)"
    using randomIndex_le [of "rnd (Suc i)" "Suc i"] assms(1) Suc.prems(2) by (meson le_less_trans)
  have "mset (shuffleLoop rnd b i ?h ! b) = mset (?h ! b)"
    using Suc.prems by (intro Suc.IH) simp_all
  also have "\<dots> = mset (h ! b)"
    using Suc.prems j by (simp add: mset_swap_cards)
  finally show ?case by simp
qed

lemma createDeck_length: "length (createDeck mkId) = 52"
  by (simp add: createDeck_def RANKS_def SUITS_def)

lemma createDeck_once:
  "length (filter (\<lambda>c. suit c = s \<and> rank c = r) (createDeck mkId)) = 1"
  by (cases s; cases r; simp add: createDeck_def RANKS_def SUITS_def)

lemma length_filter_mset:
  "mset xs = mset ys \<Longrightarrow> length (filter P xs) = length (filter P ys)"
  by (metis mset_filter size_mset)

text \<open>
  C10. For every store, every deck in it and every sequence of draws in \<open>[0, 1)\<close>,
  \<^verbatim>\<open>shuffleDeck\<close> returns a fresh array that is a permutation of the deck (same
  multiset of cards, same length); every array that was in the store, the input
  deck among them, is unchanged. When the input is the deck of \<^verbatim>\<open>createDeck\<close>, the
  result has 52 cards and holds each (rank, suit) pair exactly once.
\<close>

theorem shuffleDeck_permutation:
  assumes "\<forall>k. 0 \<le> rnd k \<and> rnd k < 1" and "d < length h"
  shows "case shuffleDeck rnd h d of (h', newDeck) \<Rightarrow>
           mset (h' ! newDeck) = mset (h ! d)
         \<and> length (h' ! newDeck) = length (h ! d)
         \<and> newDeck \<noteq> d
         \<and> (\<forall>a < length h. h' ! a = h ! a)
         \<and> (h ! d = createDeck mkId \<longrightarrow>
              length (h' ! newDeck) = 52
            \<and> (\<forall>s r. length (filter (\<lambda>c. suit c = s \<and> rank c = r) (h' ! newDeck)) = 1))"
proof -
  let ?b = "length h"
  let ?h1 = "h @ [h ! d]"
  let ?h' = "shuffleLoop rnd ?b (length (h ! d) - 1) ?h1"
  have res: "shuffleDeck rnd h d = (?h', ?b)"
    by (simp add: shuffleDeck_def alloc_def)
  have perm: "mset (?h' ! ?b) = mset (h ! d)"
  proof (cases "h ! d = []")
    case True
    then show ?thesis by simp
  next
    case False
    then have "length (h ! d) - 1 < length (?h1 ! ?b)" by simp
    then have "mset (?h' ! ?b) = mset (?h1 ! ?b)"
      using assms(1) by (intro shuffleLoop_mset) simp_all
    then show ?thesis by simp
  qed
  have len: "length (?h' ! ?b) = length (h ! d)"
    using perm by (rule mset_eq_length)
  have old: "\<forall>a < length h. ?h' ! a = h ! a"
    by (simp add: shuffleLoop_other nth_append)
  have full: "length (?h' ! ?b) = 52
      \<and> (\<forall>s r. length (filter (\<lambda>c. suit c = s \<and> rank c = r) (?h' ! ?b)) = 1)"
    if "h ! d = createDeck mkId"
    using that len length_filter_mset [OF perm] by (simp add: createDeck_length createDeck_once)
  show ?thesis
    using assms(2) perm len old full by (simp add: res)
qed

text \<open>
  The theorem at a three-card deck with every draw equal to 1/2: the result is the
  deck with its last two cards exchanged, stored at the fresh address 1.
\<close>

theorem shuffleDeck_permutation_witness:
  "(\<forall>k::nat. (0::real) \<le> 1/2 \<and> (1/2::real) < 1) \<and> (0::nat) < length [[\<lparr>suit = Hearts, rank = Two, card_id = ''a''\<rparr>,
        \<lparr>suit = Clubs, rank = King, card_id = ''b''\<rparr>, \<lparr>suit = Spades, rank = Ace, card_id = ''c''\<rparr>]]
   \<and> shuffleDeck (\<lambda>k. 1/2)
       [[\<lparr>suit = Hearts, rank = Two, card_id = ''a''\<rparr>, \<lparr>suit = Clubs, rank = King, card_id = ''b''\<rparr>,
         \<lparr>suit = Spades, rank = Ace, card_id = ''c''\<rparr>]] 0
     = ([[\<lparr>suit = Hearts, rank = Two, card_id = ''a''\<rparr>, \<lparr>suit = Clubs, rank = King, card_id = ''b''\<rparr>,
          \<lparr>suit = Spades, rank = Ace, card_id = ''c''\<rparr>],
         [\<lparr>suit = Hearts, rank = Two, card_id = ''a''\<rparr>, \<lparr>suit = Spades, rank = Ace, card_id = ''c''\<rparr>,
          \<lparr>suit = Clubs, rank = King, card_id = ''b''\<rparr>]], 1)
   \<and> mset [\<lparr>suit = Hearts, rank = Two, card_id = ''a''\<rparr>, \<lparr>suit = Spades, rank = Ace, card_id = ''c''\<rparr>,
          \<lparr>suit = Clubs, rank = King, card_id = ''b''\<rparr>]
     = mset [\<lparr>suit = Hearts, rank = Two, card_id = ''a''\<rparr>, \<lparr>suit = Clubs, rank = King, card_id = ''b''\<rparr>,
         \<lparr>suit = Spades, rank = Ace, card_id = ''c''\<rparr>]"
proof -
  let ?deck = "[\<lparr>suit = Hearts, rank = Two, card_id = ''a''\<rparr>, \<lparr>suit = Clubs, rank = King, card_id = ''b''\<rparr>,
         \<lparr>suit = Spades, rank = Ace, card_id = ''c''\<rparr>]"
  have draws: "\<forall>k::nat. (0::real) \<le> 1/2 \<and> (1/2::real) < 1" by simp
  have addr: "(0::nat) < length [?deck]" by simp
  have run: "shuffleDeck (\<lambda>k. 1/2) [?deck] 0 = ([?deck, [?deck ! 0, ?deck ! 2, ?deck ! 1]], 1)"
    by (simp add: shuffleDeck_def alloc_def swap_def randomIndex_def numeral_2_eq_2)
  show ?thesis
    using shuffleDeck_permutation [OF draws addr, of "\<lambda>r s. []"] draws run by simp
qed

section \<open>Hand evaluation properties\<close>

subsection \<open>The score as a comparison key\<close>

lemma scoredByFirstI:
  "bestFive e = Some c # rest \<Longrightarrow> score e = categoryBase (rankName e) + RANK_VALUE (rank c)
   \<Longrightarrow> scoredByFirst e"
  by (simp add: scoredByFirst_def primaryRank_def)

lemma fromFlush_shape:
  assumes "fromFlush allCards fs sh trips = Inr e"
  shows "rankName e = ''Straight'' \<or> scoredByFirst e"
  using assms
  by (auto simp: fromFlush_def withFirst_def Let_def categoryBase_def
           split: option.splits list.splits if_splits intro!: scoredByFirstI)

lemma fromQuads_shape:
  assumes "fromQuads allCards fs sh = Inr e"
  shows "rankName e = ''Straight'' \<or> scoredByFirst e"
  using assms fromFlush_shape
  by (auto simp: fromQuads_def withFirst_def Let_def categoryBase_def
           split: option.splits list.splits if_splits intro!: scoredByFirstI)

lemma evaluateHand_shape:
  assumes "evaluateHand h c = Inr e"
  shows "rankName e = ''Straight'' \<or> rankName e = ''Straight Flush'' \<or> scoredByFirst e"
  using assms fromQuads_shape
  by (auto simp: evaluateHand_def Let_def split: option.splits if_splits)

text \<open>
  C2 (amended). The comparison key of \<^verbatim>\<open>evaluateHand\<close> is the number
  \<open>score = base of the category + one rank value\<close>; kickers are not part of it. For
  every two evaluated hands of the same category (other than Straight and Straight
  Flush, whose key is the base plus the high card of the straight) and the same
  primary rank, the scores are equal, whatever the other cards are. In particular
  identical hands compare equal.
\<close>

theorem score_ignores_kickers:
  assumes "evaluateHand h c = Inr e" and "evaluateHand h' c' = Inr e'"
    and "rankName e = rankName e'"
    and "rankName e \<noteq> ''Straight''" and "rankName e \<noteq> ''Straight Flush''"
    and "primaryRank e = primaryRank e'"
  shows "score e = score e'"
proof -
  have "scoredByFirst e" and "scoredByFirst e'"
    using assms evaluateHand_shape by metis+
  then show ?thesis
    using assms(3,6) by (auto simp: scoredByFirst_def)
qed

theorem score_ignores_kickers_witness:
  "evaluateHand [mkCard Ace Spades, mkCard Ace Hearts]
       [mkCard King Diamonds, mkCard Seven Clubs, mkCard Four Spades]
     = Inr \<lparr>score = 114, rankName = ''Pair'',
            bestFive = [Some (mkCard Ace Spades), Some (mkCard Ace Hearts),
              Some (mkCard King Diamonds), Some (mkCard Seven Clubs), Some (mkCard Four Spades)]\<rparr>
   \<and> evaluateHand [mkCard Ace Diamonds, mkCard Ace Clubs]
       [mkCard Queen Diamonds, mkCard Seven Clubs, mkCard Four Spades]
     = Inr \<lparr>score = 114, rankName = ''Pair'',
            bestFive = [Some (mkCard Ace Diamonds), Some (mkCard Ace Clubs),
              Some (mkCard Queen Diamonds), Some (mkCard Seven Clubs), Some (mkCard Four Spades)]\<rparr>
   \<and> (114::int) = 114"
proof -
  let ?e1 = "\<lparr>score = 114, rankName = ''Pair'',
            bestFive = [Some (mkCard Ace Spades), Some (mkCard Ace Hearts),
              Some (mkCard King Diamonds), Some (mkCard Seven Clubs), Some (mkCard Four Spades)]\<rparr>"
  let ?e2 = "\<lparr>score = 114, rankName = ''Pair'',
            bestFive = [Some (mkCard Ace Diamonds), Some (mkCard Ace Clubs),
              Some (mkCard Queen Diamonds), Some (mkCard Seven Clubs), Some (mkCard Four Spades)]\<rparr>"
  have h1: "evaluateHand [mkCard Ace Spades, mkCard Ace Hearts]
       [mkCard King Diamonds, mkCard Seven Clubs, mkCard Four Spades] = Inr ?e1"
    by code_simp
  have h2: "evaluateHand [mkCard Ace Diamonds, mkCard Ace Clubs]
       [mkCard Queen Diamonds, mkCard Seven Clubs, mkCard Four Spades] = Inr ?e2"
    by code_simp
  have h3: "rankName ?e1 = rankName ?e2" by simp
  have h4: "rankName ?e1 \<noteq> ''Straight''" by simp
  have h5: "rankName ?e1 \<noteq> ''Straight Flush''" by simp
  have h6: "primaryRank ?e1 = primaryRank ?e2" by (simp add: primaryRank_def)
  show ?thesis
    using score_ignores_kickers [OF h1 h2 h3 h4 h5 h6] h1 h2 by simp
qed

text \<open>
  C2 as stated fails: a pair of aces with a king kicker and a pair of aces with a
  queen kicker (the other cards equal) get the same key 114, so the hand with the
  higher kicker does not compare greater.
\<close>

theorem kicker_does_not_order:
  "evaluateHand [mkCard Ace Spades, mkCard Ace Hearts]
       [mkCard King Diamonds, mkCard Seven Clubs, mkCard Four Spades]
     = Inr \<lparr>score = 114, rankName = ''Pair'',
            bestFive = [Some (mkCard Ace Spades), Some (mkCard Ace Hearts),
              Some (mkCard King Diamonds), Some (mkCard Seven Clubs), Some (mkCard Four Spades)]\<rparr>
   \<and> evaluateHand [mkCard Ace Spades, mkCard Ace Hearts]
       [mkCard Queen Diamonds, mkCard Seven Clubs, mkCard Four Spades]
     = Inr \<lparr>score = 114, rankName = ''Pair'',
            bestFive = [Some (mkCard Ace Spades), Some (mkCard Ace Hearts),
              Some (mkCard Queen Diamonds), Some (mkCard Seven Clubs), Some (mkCard Four Spades)]\<rparr>"
  by code_simp

subsection \<open>Groups of a rank, cards of a suit\<close>

lemma fold_fromSet_set:
  "set (fold (\<lambda>x acc. if x \<in> set acc then acc else acc @ [x]) xs acc) = set acc \<union> set xs"
  by (induction xs arbitrary: acc) auto

lemma fold_fromSet_distinct:
  "distinct acc \<Longrightarrow> distinct (fold (\<lambda>x acc. if x \<in> set acc then acc else acc @ [x]) xs acc)"
  by (induction xs arbitrary: acc) auto

lemma set_fromSet [simp]: "set (fromSet xs) = set xs"
  by (simp add: fromSet_def fold_fromSet_set)

lemma distinct_fromSet [simp]: "distinct (fromSet xs)"
  by (simp add: fromSet_def fold_fromSet_distinct)

lemma set_forInOrder: "set (forInOrder cards) = rank ` set cards"
  by (auto simp: forInOrder_def)

lemma getNOfAKind_None_iff:
  "getNOfAKind cards n = None \<longleftrightarrow> (\<forall>r \<in> set (forInOrder cards). length (ofRank r cards) < n)"
proof -
  have "getNOfAKind cards n = None
      \<longleftrightarrow> find (\<lambda>r. n \<le> length (ofRank r cards)) (forInOrder cards) = None"
    by (simp add: getNOfAKind_def split: option.splits)
  also have "\<dots> \<longleftrightarrow> (\<forall>r \<in> set (forInOrder cards). length (ofRank r cards) < n)"
    by (simp add: find_None_iff not_le Ball_def)
  finally show ?thesis .
qed

lemma ofRank_absent: "r \<notin> rank ` set cards \<Longrightarrow> ofRank r cards = []"
  by (auto simp: ofRank_def filter_empty_conv)

lemma getNOfAKind_NoneD:
  assumes "getNOfAKind cards n = None" and "0 < n"
  shows "length (ofRank r cards) < n"
proof (cases "r \<in> rank ` set cards")
  case True
  then have "r \<in> set (forInOrder cards)" by (simp only: set_forInOrder)
  then show ?thesis using assms(1) unfolding getNOfAKind_None_iff by blast
next
  case False
  then show ?thesis using assms(2) by (simp add: ofRank_absent)
qed

lemma getNOfAKind_NoneI:
  "(\<And>r. length (ofRank r cards) < n) \<Longrightarrow> getNOfAKind cards n = None"
  by (simp add: getNOfAKind_None_iff)

lemma getNOfAKind_SomeD:
  assumes "getNOfAKind cards n = Some g"
  shows "\<exists>r. n \<le> length (ofRank r cards) \<and> g = take n (ofRank r cards)"
  using assms by (auto simp: getNOfAKind_def find_Some_iff split: option.splits)

lemma flushLoop_Some:
  "flushLoop counts cards = Some s \<Longrightarrow> 5 \<le> counts s + length (filter (\<lambda>c. suit c = s) cards)"
proof (induction cards arbitrary: counts)
  case Nil
  then show ?case by simp
next
  case (Cons c cards)
  show ?case
  proof (cases "5 \<le> counts (suit c) + 1")
    case True
    then show ?thesis using Cons.prems by (auto simp: Let_def)
  next
    case False
    then have "flushLoop (counts(suit c := counts (suit c) + 1)) cards = Some s"
      using Cons.prems by (simp add: Let_def)
    from Cons.IH [OF this] show ?thesis by (auto split: if_splits)
  qed
qed

lemma flushLoop_None:
  "(\<And>s. counts s + length (filter (\<lambda>c. suit c = s) cards) < 5) \<Longrightarrow> flushLoop counts cards = None"
proof (induction cards arbitrary: counts)
  case Nil
  then show ?case by simp
next
  case (Cons c cards)
  have small: "\<not> 5 \<le> counts (suit c) + 1"
    using Cons.prems [of "suit c"] by simp
  have "flushLoop (counts(suit c := counts (suit c) + 1)) cards = None"
  proof (rule Cons.IH)
    fix s
    show "(counts(suit c := counts (suit c) + 1)) s + length (filter (\<lambda>c. suit c = s) cards) < 5"
      using Cons.prems [of s] by (auto split: if_splits)
  qed
  then show ?case using small by (simp add: Let_def)
qed

lemma getFlushSuit_Some:
  "getFlushSuit cards = Some s \<Longrightarrow> 5 \<le> length (filter (\<lambda>c. suit c = s) cards)"
  using flushLoop_Some [of "\<lambda>_. 0" cards s] by (simp add: getFlushSuit_def)

lemma getFlushSuit_None:
  "(\<And>s. length (filter (\<lambda>c. suit c = s) cards) < 5) \<Longrightarrow> getFlushSuit cards = None"
  unfolding getFlushSuit_def by (rule flushLoop_None) simp

lemma group_length: "getNOfAKind xs n = Some g \<Longrightarrow> length g = n"
  using getNOfAKind_SomeD [of xs n g] by auto

lemma group_subset: "getNOfAKind xs n = Some g \<Longrightarrow> set g \<subseteq> set xs"
  using getNOfAKind_SomeD [of xs n g] by (auto simp: ofRank_def dest: in_set_takeD)

lemma group_rank:
  assumes "getNOfAKind xs n = Some (a # g)"
  shows "n \<le> length (ofRank (rank a) xs)"
proof -
  from getNOfAKind_SomeD [OF assms] obtain r
    where r: "n \<le> length (ofRank r xs)" "a # g = take n (ofRank r xs)"
    by blast
  have "a \<in> set (take n (ofRank r xs))"
    using r(2) by (metis list.set_intros(1))
  then have "a \<in> set (ofRank r xs)"
    by (rule in_set_takeD)
  then have "rank a = r"
    by (simp add: ofRank_def)
  then show ?thesis using r(1) by simp
qed

lemma split_by_rank:
  "length xs = length (ofRank r xs) + length (filter (\<lambda>c. rank c \<noteq> r) xs)"
  unfolding ofRank_def using sum_length_filter_compl [of "\<lambda>c. rank c = r" xs] by simp

lemma ofRank_filter_other:
  "r \<noteq> r' \<Longrightarrow> ofRank r (filter (\<lambda>c. rank c \<noteq> r') xs) = ofRank r xs"
  unfolding ofRank_def by (induction xs) auto

lemma fiveOfI:
  "length xs = 5 \<Longrightarrow> set xs \<subseteq> set cards \<Longrightarrow> bestFive e = map Some xs \<Longrightarrow> fiveOf cards e"
  by (auto simp: fiveOf_def)

lemma fromFlush_cases:
  assumes "fromFlush all fs sh trips = Inr e"
  shows "(\<exists>s. fs = Some s \<and> bestFive e = map Some (take 5 (filter (\<lambda>c. suit c = s) all))
              \<and> rankName e = ''Flush'')
       \<or> (bestFive e = map Some (take 5 all)
              \<and> (rankName e = ''Straight'' \<or> rankName e = ''High Card''))
       \<or> (\<exists>t0 rest. trips = Some (t0 # rest)
              \<and> bestFive e = map Some ((t0 # rest) @ take 2 (filter (\<lambda>c. rank c \<noteq> rank t0) all))
              \<and> rankName e = ''Three of a Kind'')
       \<or> (trips = None \<and> (\<exists>a r1 b r2.
                getNOfAKind all 2 = Some (a # r1)
              \<and> getNOfAKind (filter (\<lambda>c. rank c \<noteq> rank a) all) 2 = Some (b # r2)
              \<and> bestFive e = map Some (a # r1) @ map Some (b # r2)
                   @ [case filter (\<lambda>c. rank c \<noteq> rank a \<and> rank c \<noteq> rank b) all of
                        [] \<Rightarrow> None | k # _ \<Rightarrow> Some k]
              \<and> rankName e = ''Two Pair''))
       \<or> (trips = None \<and> (\<exists>a r1.
                getNOfAKind all 2 = Some (a # r1)
              \<and> bestFive e = map Some ((a # r1) @ take 3 (filter (\<lambda>c. rank c \<noteq> rank a) all))
              \<and> rankName e = ''Pair''))"
  using assms
  by (auto simp: fromFlush_def withFirst_def Let_def
           split: option.splits list.splits if_splits)

lemma others_length:
  assumes "k \<le> length (ofRank r xs)" and "length (ofRank r xs) < Suc k"
  shows "length (filter (\<lambda>c. rank c \<noteq> r) xs) = length xs - k"
  using assms split_by_rank [of xs r] by simp

lemma trips_five:
  assumes "getNOfAKind all 3 = Some (t0 # rest)" and "getNOfAKind all 4 = None"
    and "5 \<le> length all"
    and "bestFive e = map Some ((t0 # rest) @ take 2 (filter (\<lambda>c. rank c \<noteq> rank t0) all))"
  shows "fiveOf all e"
proof -
  let ?others = "filter (\<lambda>c. rank c \<noteq> rank t0) all"
  have "3 \<le> length (ofRank (rank t0) all)"
    using assms(1) by (rule group_rank)
  moreover have "length (ofRank (rank t0) all) < 4"
    using assms(2) by (rule getNOfAKind_NoneD) simp
  ultimately have "length ?others = length all - 3"
    by (intro others_length) simp_all
  then have "length (take 2 ?others) = 2"
    using assms(3) by simp
  moreover have "length (t0 # rest) = 3"
    using assms(1) by (rule group_length)
  ultimately have len: "length ((t0 # rest) @ take 2 ?others) = 5"
    by simp
  have "set (t0 # rest) \<subseteq> set all"
    using assms(1) by (rule group_subset)
  moreover have "set (take 2 ?others) \<subseteq> set all"
    by (auto dest: in_set_takeD)
  ultimately have "set ((t0 # rest) @ take 2 ?others) \<subseteq> set all"
    by simp
  with len show ?thesis
    using assms(4) by (rule fiveOfI)
qed

lemma pair_five:
  assumes "getNOfAKind all 2 = Some (a # r1)" and "getNOfAKind all 3 = None"
    and "5 \<le> length all"
    and "bestFive e = map Some ((a # r1) @ take 3 (filter (\<lambda>c. rank c \<noteq> rank a) all))"
  shows "fiveOf all e"
proof -
  let ?others = "filter (\<lambda>c. rank c \<noteq> rank a) all"
  have "2 \<le> length (ofRank (rank a) all)"
    using assms(1) by (rule group_rank)
  moreover have "length (ofRank (rank a) all) < 3"
    using assms(2) by (rule getNOfAKind_NoneD) simp
  ultimately have "length ?others = length all - 2"
    by (intro others_length) simp_all
  then have "length (take 3 ?others) = 3"
    using assms(3) by simp
  moreover have "length (a # r1) = 2"
    using assms(1) by (rule group_length)
  ultimately have len: "length ((a # r1) @ take 3 ?others) = 5"
    by simp
  have "set (a # r1) \<subseteq> set all"
    using assms(1) by (rule group_subset)
  moreover have "set (take 3 ?others) \<subseteq> set all"
    by (auto dest: in_set_takeD)
  ultimately have "set ((a # r1) @ take 3 ?others) \<subseteq> set all"
    by simp
  with len show ?thesis
    using assms(4) by (rule fiveOfI)
qed

lemma twoPair_five:
  assumes "getNOfAKind all 2 = Some (a # r1)" and "getNOfAKind all 3 = None"
    and "getNOfAKind (filter (\<lambda>c. rank c \<noteq> rank a) all) 2 = Some (b # r2)"
    and "5 \<le> length all"
    and "bestFive e = map Some (a # r1) @ map Some (b # r2)
           @ [case filter (\<lambda>c. rank c \<noteq> rank a \<and> rank c \<noteq> rank b) all of
                [] \<Rightarrow> None | k # _ \<Rightarrow> Some k]"
  shows "fiveOf all e"
proof -
  let ?others = "filter (\<lambda>c. rank c \<noteq> rank a) all"
  let ?rest = "filter (\<lambda>c. rank c \<noteq> rank a \<and> rank c \<noteq> rank b) all"
  have "2 \<le> length (ofRank (rank a) all)"
    using assms(1) by (rule group_rank)
  moreover have "length (ofRank (rank a) all) < 3"
    using assms(2) by (rule getNOfAKind_NoneD) simp
  ultimately have others: "length ?others = length all - 2"
    by (intro others_length) simp_all
  have "b \<in> set ?others"
    using group_subset [OF assms(3)] by simp
  then have ne: "rank b \<noteq> rank a"
    by simp
  have "2 \<le> length (ofRank (rank b) ?others)"
    using assms(3) by (rule group_rank)
  moreover have "length (ofRank (rank b) ?others) < 3"
    using getNOfAKind_NoneD [OF assms(2), of "rank b"] ne by (simp add: ofRank_filter_other)
  ultimately have "length (filter (\<lambda>c. rank c \<noteq> rank b) ?others) = length ?others - 2"
    by (intro others_length) simp_all
  moreover have "filter (\<lambda>c. rank c \<noteq> rank b) ?others = ?rest"
    by (simp add: conj_commute)
  ultimately have "length ?rest = length all - 4"
    using others by simp
  then have "?rest \<noteq> []"
    using assms(4) by auto
  then obtain k ks where k: "?rest = k # ks"
    by (cases ?rest) auto
  then have "k \<in> set ?rest"
    by simp
  then have kin: "k \<in> set all"
    by simp
  have best: "bestFive e = map Some ((a # r1) @ (b # r2) @ [k])"
    using assms(5) k by simp
  have "length (a # r1) = 2" and "length (b # r2) = 2"
    using group_length [OF assms(1)] group_length [OF assms(3)] by simp_all
  then have len: "length ((a # r1) @ (b # r2) @ [k]) = 5"
    by simp
  have "set (a # r1) \<subseteq> set all"
    using assms(1) by (rule group_subset)
  moreover have "set (b # r2) \<subseteq> set all"
    using group_subset [OF assms(3)] by auto
  ultimately have "set ((a # r1) @ (b # r2) @ [k]) \<subseteq> set all"
    using kin by simp
  with len show ?thesis
    using best by (rule fiveOfI)
qed

lemma flush_five:
  assumes "getFlushSuit all = Some s"
    and "bestFive e = map Some (take 5 (filter (\<lambda>c. suit c = s) all))"
  shows "fiveOf all e"
proof -
  have "5 \<le> length (filter (\<lambda>c. suit c = s) all)"
    using assms(1) by (rule getFlushSuit_Some)
  then have "length (take 5 (filter (\<lambda>c. suit c = s) all)) = 5"
    by simp
  moreover have "set (take 5 (filter (\<lambda>c. suit c = s) all)) \<subseteq> set all"
    by (auto dest: in_set_takeD)
  ultimately show ?thesis
    using assms(2) by (rule fiveOfI)
qed

lemma top_five:
  assumes "5 \<le> length all" and "bestFive e = map Some (take 5 all)"
  shows "fiveOf all e"
proof -
  have "length (take 5 all) = 5"
    using assms(1) by simp
  moreover have "set (take 5 all) \<subseteq> set all"
    by (rule set_take_subset)
  ultimately show ?thesis
    using assms(2) by (rule fiveOfI)
qed

lemma fromFlush_five:
  assumes "fromFlush all (getFlushSuit all) sh (getNOfAKind all 3) = Inr e"
    and "5 \<le> length all" and "getNOfAKind all 4 = None"
  shows "fiveOf all e \<and> rankName e \<noteq> ''Four of a Kind''"
  using fromFlush_cases [OF assms(1)]
proof (elim disjE exE conjE)
  fix s
  assume "getFlushSuit all = Some s"
    and "bestFive e = map Some (take 5 (filter (\<lambda>c. suit c = s) all))"
    and "rankName e = ''Flush''"
  then show ?thesis using flush_five [of all s e] by simp
next
  assume "bestFive e = map Some (take 5 all)" and "rankName e = ''Straight''"
  then show ?thesis using top_five [OF assms(2), of e] by simp
next
  assume "bestFive e = map Some (take 5 all)" and "rankName e = ''High Card''"
  then show ?thesis using top_five [OF assms(2), of e] by simp
next
  fix t0 rest
  assume "getNOfAKind all 3 = Some (t0 # rest)"
    and "bestFive e = map Some ((t0 # rest) @ take 2 (filter (\<lambda>c. rank c \<noteq> rank t0) all))"
    and "rankName e = ''Three of a Kind''"
  then show ?thesis using trips_five [OF _ assms(3,2), of t0 rest e] by simp
next
  fix a r1 b r2
  assume "getNOfAKind all 3 = None" and "getNOfAKind all 2 = Some (a # r1)"
    and "getNOfAKind (filter (\<lambda>c. rank c \<noteq> rank a) all) 2 = Some (b # r2)"
    and "bestFive e = map Some (a # r1) @ map Some (b # r2)
           @ [case filter (\<lambda>c. rank c \<noteq> rank a \<and> rank c \<noteq> rank b) all of
                [] \<Rightarrow> None | k # _ \<Rightarrow> Some k]"
    and "rankName e = ''Two Pair''"
  then show ?thesis using twoPair_five [of all a r1 b r2 e] assms(2) by simp
next
  fix a r1
  assume "getNOfAKind all 3 = None" and "getNOfAKind all 2 = Some (a # r1)"
    and "bestFive e = map Some ((a # r1) @ take 3 (filter (\<lambda>c. rank c \<noteq> rank a) all))"
    and "rankName e = ''Pair''"
  then show ?thesis using pair_five [of all a r1 e] assms(2) by simp
qed

lemma fromQuads_cases:
  assumes "fromQuads all fs sh = Inr e"
  shows "(\<exists>q0 qs. getNOfAKind all 4 = Some (q0 # qs) \<and> bestFive e = map Some (q0 # qs)
              \<and> rankName e = ''Four of a Kind'')
       \<or> (getNOfAKind all 4 = None \<and> (\<exists>t0 rest pair.
                getNOfAKind all 3 = Some (t0 # rest)
              \<and> getNOfAKind (filter (\<lambda>c. rank c \<noteq> rank t0) all) 2 = Some pair
              \<and> bestFive e = map Some ((t0 # rest) @ pair)
              \<and> rankName e = ''Full House''))
       \<or> (getNOfAKind all 4 = None \<and> fromFlush all fs sh (getNOfAKind all 3) = Inr e)"
  using assms
  by (auto simp: fromQuads_def withFirst_def Let_def
           split: option.splits list.splits if_splits)

lemma fullHouse_five:
  assumes "getNOfAKind all 3 = Some (t0 # rest)"
    and "getNOfAKind (filter (\<lambda>c. rank c \<noteq> rank t0) all) 2 = Some pair"
    and "bestFive e = map Some ((t0 # rest) @ pair)"
  shows "fiveOf all e"
proof -
  have "length (t0 # rest) = 3" and "length pair = 2"
    using group_length [OF assms(1)] group_length [OF assms(2)] by simp_all
  then have len: "length ((t0 # rest) @ pair) = 5"
    by simp
  have "set (t0 # rest) \<subseteq> set all"
    using assms(1) by (rule group_subset)
  moreover have "set pair \<subseteq> set all"
    using group_subset [OF assms(2)] by auto
  ultimately have "set ((t0 # rest) @ pair) \<subseteq> set all"
    by simp
  with len show ?thesis
    using assms(3) by (rule fiveOfI)
qed

lemma fromQuads_five:
  assumes "fromQuads all (getFlushSuit all) sh = Inr e" and "5 \<le> length all"
  shows "if rankName e = ''Four of a Kind''
         then length (bestFive e) = 4 \<and> set (bestFive e) \<subseteq> Some ` set all
         else fiveOf all e"
  using fromQuads_cases [OF assms(1)]
proof (elim disjE exE conjE)
  fix q0 qs
  assume q: "getNOfAKind all 4 = Some (q0 # qs)" and "bestFive e = map Some (q0 # qs)"
    and "rankName e = ''Four of a Kind''"
  then show ?thesis
    using group_length [OF q] group_subset [OF q] by auto
next
  fix t0 rest pair
  assume "getNOfAKind all 3 = Some (t0 # rest)"
    and "getNOfAKind (filter (\<lambda>c. rank c \<noteq> rank t0) all) 2 = Some pair"
    and "bestFive e = map Some ((t0 # rest) @ pair)"
    and "rankName e = ''Full House''"
  then show ?thesis using fullHouse_five [of all t0 rest pair e] by simp
next
  assume "getNOfAKind all 4 = None"
    and "fromFlush all (getFlushSuit all) sh (getNOfAKind all 3) = Inr e"
  then show ?thesis using fromFlush_five [OF _ assms(2), of sh e] by simp
qed

lemma evaluateHand_cases:
  assumes "evaluateHand h c = Inr e"
  shows "(\<exists>s. getFlushSuit (sort_key (\<lambda>c. - RANK_VALUE (rank c)) (h @ c)) = Some s
            \<and> bestFive e = map Some (take 5 (filter (\<lambda>c. suit c = s)
                 (sort_key (\<lambda>c. - RANK_VALUE (rank c)) (h @ c))))
            \<and> rankName e = ''Straight Flush'')
       \<or> fromQuads (sort_key (\<lambda>c. - RANK_VALUE (rank c)) (h @ c))
            (getFlushSuit (sort_key (\<lambda>c. - RANK_VALUE (rank c)) (h @ c)))
            (getStraightHigh (sort_key (\<lambda>c. - RANK_VALUE (rank c)) (h @ c))) = Inr e"
  using assms
  by (auto simp: evaluateHand_def Let_def split: option.splits if_splits)

lemma evaluateHand_bestFive:
  assumes "evaluateHand h c = Inr e" and "5 \<le> length (h @ c)"
  shows "set (bestFive e) \<subseteq> Some ` set (h @ c)
       \<and> length (bestFive e) = (if rankName e = ''Four of a Kind'' then 4 else 5)"
proof -
  let ?all = "sort_key (\<lambda>c. - RANK_VALUE (rank c)) (h @ c)"
  have len: "5 \<le> length ?all"
    using assms(2) by simp
  have set: "set ?all = set (h @ c)"
    by simp
  from evaluateHand_cases [OF assms(1)] show ?thesis
  proof (elim disjE exE conjE)
    fix s
    assume "getFlushSuit ?all = Some s"
      and "bestFive e = map Some (take 5 (filter (\<lambda>c. suit c = s) ?all))"
      and "rankName e = ''Straight Flush''"
    then show ?thesis
      using flush_five [of ?all s e] set by (simp add: fiveOf_def)
  next
    assume "fromQuads ?all (getFlushSuit ?all) (getStraightHigh ?all) = Inr e"
    from fromQuads_five [OF this len] show ?thesis
      using set by (auto simp: fiveOf_def split: if_splits)
  qed
qed

subsection \<open>Two Pair and Four of a Kind on concrete hands\<close>

text \<open>
  C3. The claim wants the two highest pair ranks as the primary ranks of a Two Pair
  result. \<^verbatim>\<open>evaluateHand\<close> sorts the cards by descending rank so that
  \<^verbatim>\<open>getNOfAKind\<close> meets the highest group first, but the object it groups them in
  is enumerated with the keys \<^verbatim>\<open>'2'\<close> to \<^verbatim>\<open>'10'\<close> first, in ascending order. With the
  pairs 9-9, 5-5 and 3-3 the code scores the threes and lists threes and fives
  (score 203, where the claim gives nines and fives and 209); with the two pairs
  9-9 and 3-3 it scores the threes.
\<close>

theorem twoPair_takes_lowest_pairs:
  "evaluateHand [mkCard Nine Spades, mkCard Nine Hearts]
       [mkCard Five Diamonds, mkCard Five Clubs, mkCard Three Hearts, mkCard Three Spades,
        mkCard King Spades]
     = Inr \<lparr>score = 203, rankName = ''Two Pair'',
            bestFive = [Some (mkCard Three Hearts), Some (mkCard Three Spades),
              Some (mkCard Five Diamonds), Some (mkCard Five Clubs), Some (mkCard King Spades)]\<rparr>
   \<and> evaluateHand [mkCard Nine Spades, mkCard Nine Hearts]
       [mkCard Three Hearts, mkCard Three Spades, mkCard King Spades]
     = Inr \<lparr>score = 203, rankName = ''Two Pair'',
            bestFive = [Some (mkCard Three Hearts), Some (mkCard Three Spades),
              Some (mkCard Nine Spades), Some (mkCard Nine Hearts), Some (mkCard King Spades)]\<rparr>"
  by code_simp

text \<open>
  Among the ranks J, Q, K, A the enumeration follows the sorted cards, and the
  highest pair is scored: the sibling case that behaves as the claim says.
\<close>

lemma twoPair_face_ranks:
  "evaluateHand [mkCard King Spades, mkCard King Hearts]
       [mkCard Ace Diamonds, mkCard Ace Clubs, mkCard Two Spades]
     = Inr \<lparr>score = 214, rankName = ''Two Pair'',
            bestFive = [Some (mkCard Ace Diamonds), Some (mkCard Ace Clubs),
              Some (mkCard King Spades), Some (mkCard King Hearts), Some (mkCard Two Spades)]\<rparr>"
  by code_simp

text \<open>
  C9. The claim wants five cards in \<^verbatim>\<open>bestFive\<close>, a Four of a Kind result holding
  the highest remaining card as the fifth. For an input of at least five cards
  every branch builds five cards out of the input (lemma \<open>evaluateHand_bestFive\<close>)
  except the Four of a Kind branch, which returns \<^verbatim>\<open>bestFive: quads\<close>: four aces
  here, the king is missing.
\<close>

theorem quads_bestFive_has_four_cards:
  "evaluateHand [mkCard Ace Spades, mkCard Ace Hearts]
       [mkCard Ace Diamonds, mkCard Ace Clubs, mkCard King Spades]
     = Inr \<lparr>score = 714, rankName = ''Four of a Kind'',
            bestFive = [Some (mkCard Ace Spades), Some (mkCard Ace Hearts),
              Some (mkCard Ace Diamonds), Some (mkCard Ace Clubs)]\<rparr>"
  by code_simp

subsection \<open>The wheel\<close>

lemma descValues_set: "set (descValues cards) = valuesOf cards"
  by (simp add: descValues_def valuesOf_def)

lemma descValues_distinct: "distinct (descValues cards)"
  by (simp add: descValues_def)

lemma descValues_sorted: "sorted_wrt (\<lambda>a b. b \<le> a) (descValues cards)"
proof -
  have "sorted (map (\<lambda>v. - v) (descValues cards))"
    by (simp add: descValues_def)
  then show ?thesis
    by (simp add: sorted_wrt_map)
qed

lemma descValues_length: "length (descValues cards) \<le> length cards"
proof -
  have "length (descValues cards) = card (valuesOf cards)"
    using descValues_distinct descValues_set distinct_card by metis
  also have "\<dots> \<le> card (set cards)"
    unfolding valuesOf_def by (rule card_image_le) simp
  also have "\<dots> \<le> length cards"
    by (rule card_length)
  finally show ?thesis .
qed

lemma uniqueValues_alt:
  "uniqueValues cards = descValues cards @ (if 14 \<in> valuesOf cards then [1] else [])"
  by (simp add: uniqueValues_def descValues_def valuesOf_def Let_def)

lemma desc_split:
  "sorted_wrt (\<lambda>a b. b \<le> a) (l::int list) \<Longrightarrow> l = filter (\<lambda>x. k < x) l @ filter (\<lambda>x. \<not> k < x) l"
proof (induction l)
  case Nil
  then show ?case by simp
next
  case (Cons a l)
  then have IH: "l = filter (\<lambda>x. k < x) l @ filter (\<lambda>x. \<not> k < x) l" by simp
  show ?case
  proof (cases "k < a")
    case True
    then show ?thesis using IH by simp
  next
    case False
    with Cons.prems have "\<forall>x \<in> set l. \<not> k < x" by auto
    then have "filter (\<lambda>x. k < x) l = []" by (simp add: filter_empty_conv)
    then show ?thesis using False IH by simp
  qed
qed

lemma desc_unique:
  assumes "sorted_wrt (\<lambda>a b. b \<le> a) (l::int list)" and "distinct l" and "set l = set m"
    and "sorted_wrt (\<lambda>a b. b \<le> a) m" and "distinct m"
  shows "l = m"
proof -
  have "sorted (rev l)" and "sorted (rev m)"
    using assms(1,4) by (simp_all add: sorted_wrt_rev)
  then have "rev l = rev m"
    using assms(2,3,5) by (intro sorted_distinct_set_unique) simp_all
  then show ?thesis by simp
qed

lemma RANK_VALUE_range: "2 \<le> RANK_VALUE r \<and> RANK_VALUE r \<le> 14"
  by (cases r) simp_all

lemma valuesOf_range: "v \<in> valuesOf cards \<Longrightarrow> 2 \<le> v \<and> v \<le> 14"
  using RANK_VALUE_range by (auto simp: valuesOf_def)

lemma short_list_cases:
  assumes "length (P::int list) \<le> 3"
  obtains "P = []" | a where "P = [a]" | a b where "P = [a, b]" | a b c where "P = [a, b, c]"
proof (cases P)
  case Nil
  then show ?thesis using that by simp
next
  case (Cons a P1)
  show ?thesis
  proof (cases P1)
    case Nil
    then show ?thesis using Cons that by simp
  next
    case (Cons b P2)
    note c2 = this
    show ?thesis
    proof (cases P2)
      case Nil
      then show ?thesis using \<open>P = a # P1\<close> c2 that by simp
    next
      case (Cons c P3)
      then have "P3 = []" using assms \<open>P = a # P1\<close> c2 by simp
      then show ?thesis using \<open>P = a # P1\<close> c2 Cons that by simp
    qed
  qed
qed

lemma scan_wheel:
  assumes "length P \<le> 3" and "\<forall>x \<in> set P. 7 \<le> x"
  shows "straightScan (P @ [5, 4, 3, 2, 1]) 0 0 = Some 5"
  using assms(1)
proof (cases P rule: short_list_cases)
  case 1
  then show ?thesis by (simp add: straightScan.simps)
next
  case (2 a)
  then show ?thesis using assms(2) by (simp add: straightScan.simps)
next
  case (3 a b)
  then show ?thesis using assms(2) by (simp add: straightScan.simps)
next
  case (4 a b c)
  then show ?thesis using assms(2) by (simp add: straightScan.simps)
qed

lemma scan_six:
  assumes "length P \<le> 3" and "\<forall>x \<in> set P. 8 \<le> x" and "t = [] \<or> t = [1]"
  shows "straightScan (P @ [6, 5, 4, 3, 2] @ t) 0 0 = Some 6"
  using assms(1)
proof (cases P rule: short_list_cases)
  case 1
  then show ?thesis using assms(3) by (auto simp add: straightScan.simps)
next
  case (2 a)
  then show ?thesis using assms(2,3) by (auto simp add: straightScan.simps)
next
  case (3 a b)
  then show ?thesis using assms(2,3) by (auto simp add: straightScan.simps)
next
  case (4 a b c)
  then show ?thesis using assms(2,3) by (auto simp add: straightScan.simps)
qed

lemma valuesOf_low:
  assumes "{2, 3, 4, 5} \<subseteq> valuesOf cards"
  shows "{x \<in> valuesOf cards. \<not> 5 < x} = {5, 4, 3, 2}"
proof -
  have "x \<in> {5, 4, 3, 2}" if "x \<in> valuesOf cards" "\<not> 5 < x" for x
    using valuesOf_range [OF that(1)] that(2) by auto
  then show ?thesis using assms by auto
qed

lemma getStraightHigh_wheel:
  assumes "length cards \<le> 7" and "{14, 5, 4, 3, 2} \<subseteq> valuesOf cards" and "6 \<notin> valuesOf cards"
  shows "getStraightHigh cards = Some 5"
proof -
  let ?l = "descValues cards"
  let ?P = "filter (\<lambda>x. 5 < x) ?l"
  let ?L = "filter (\<lambda>x. \<not> 5 < x) ?l"
  have split: "?l = ?P @ ?L"
    using descValues_sorted by (rule desc_split)
  have "set ?L = {5, 4, 3, 2}"
    using valuesOf_low [of cards] assms(2) by (simp add: descValues_set)
  then have L: "?L = [5, 4, 3, 2]"
    using descValues_sorted [of cards] descValues_distinct [of cards]
    by (intro desc_unique) (simp_all add: sorted_wrt_filter)
  have "length ?P + length ?L = length ?l"
    using split by (metis length_append)
  then have lenP: "length ?P \<le> 3"
    using descValues_length [of cards] assms(1) L by simp
  have "7 \<le> x" if "x \<in> set ?P" for x
  proof -
    have "x \<in> valuesOf cards" and "5 < x"
      using that by (simp_all add: descValues_set)
    then show ?thesis using assms(3) by (cases "x = 6") auto
  qed
  then have "straightScan (?P @ [5, 4, 3, 2, 1]) 0 0 = Some 5"
    using lenP by (intro scan_wheel) simp_all
  moreover have "uniqueValues cards = ?P @ [5, 4, 3, 2, 1]"
    using assms(2) split L by (simp add: uniqueValues_alt)
  ultimately show ?thesis
    by (simp add: getStraightHigh_def)
qed

lemma valuesOf_low6:
  assumes "{2, 3, 4, 5, 6} \<subseteq> valuesOf cards"
  shows "{x \<in> valuesOf cards. \<not> 6 < x} = {6, 5, 4, 3, 2}"
proof -
  have "x \<in> {6, 5, 4, 3, 2}" if "x \<in> valuesOf cards" "\<not> 6 < x" for x
    using valuesOf_range [OF that(1)] that(2) by auto
  then show ?thesis using assms by auto
qed

lemma getStraightHigh_six:
  assumes "length cards \<le> 7" and "{6, 5, 4, 3, 2} \<subseteq> valuesOf cards" and "7 \<notin> valuesOf cards"
  shows "getStraightHigh cards = Some 6"
proof -
  let ?l = "descValues cards"
  let ?P = "filter (\<lambda>x. 6 < x) ?l"
  let ?L = "filter (\<lambda>x. \<not> 6 < x) ?l"
  let ?t = "if 14 \<in> valuesOf cards then [1] else []"
  have split: "?l = ?P @ ?L"
    using descValues_sorted by (rule desc_split)
  have "set ?L = {6, 5, 4, 3, 2}"
    using valuesOf_low6 [of cards] assms(2) by (simp add: descValues_set)
  then have L: "?L = [6, 5, 4, 3, 2]"
    using descValues_sorted [of cards] descValues_distinct [of cards]
    by (intro desc_unique) (simp_all add: sorted_wrt_filter)
  have "length ?P + length ?L = length ?l"
    using split by (metis length_append)
  then have lenP: "length ?P \<le> 3"
    using descValues_length [of cards] assms(1) L by simp
  have "8 \<le> x" if "x \<in> set ?P" for x
  proof -
    have "x \<in> valuesOf cards" and "6 < x"
      using that by (simp_all add: descValues_set)
    then show ?thesis using assms(3) by (cases "x = 7") auto
  qed
  then have "straightScan (?P @ [6, 5, 4, 3, 2] @ ?t) 0 0 = Some 6"
    using lenP by (intro scan_six) simp_all
  moreover have "uniqueValues cards = ?P @ [6, 5, 4, 3, 2] @ ?t"
    using split L by (simp add: uniqueValues_alt)
  ultimately show ?thesis
    by (simp add: getStraightHigh_def)
qed

lemma valuesOf_sort_key [simp]: "valuesOf (sort_key f cards) = valuesOf cards"
  by (simp add: valuesOf_def)

lemma evaluateHand_HighCard:
  assumes "evaluateHand h c = Inr e" and "rankName e = ''High Card''"
  shows "2 \<le> score e \<and> score e \<le> 14"
  using assms RANK_VALUE_range
  by (auto simp: evaluateHand_def fromQuads_def fromFlush_def withFirst_def Let_def
           split: option.splits list.splits if_splits)

lemma valuesOf_rankI: "r \<in> rank ` set cards \<Longrightarrow> RANK_VALUE r \<in> valuesOf cards"
  by (auto simp: valuesOf_def)

lemma valuesOf_rankD:
  assumes "v \<in> valuesOf cards" and "\<And>r. RANK_VALUE r = v \<Longrightarrow> r = r0"
  shows "r0 \<in> rank ` set cards"
  using assms by (auto simp: valuesOf_def)

lemma RANK_VALUE_6: "RANK_VALUE r = 6 \<Longrightarrow> r = Six"
  by (cases r) simp_all

lemma RANK_VALUE_7: "RANK_VALUE r = 7 \<Longrightarrow> r = Seven"
  by (cases r) simp_all

lemma length_filter_sort_key [simp]:
  "length (filter P (sort_key f xs)) = length (filter P xs)"
proof -
  have "mset (filter P (sort_key f xs)) = mset (filter P xs)"
    by simp
  then show ?thesis by (rule mset_eq_length)
qed

lemma count_bound:
  assumes "R \<subseteq> rank ` set xs"
  shows "length (ofRank r xs) + card (R - {r}) \<le> length xs"
proof -
  let ?others = "filter (\<lambda>c. rank c \<noteq> r) xs"
  have "R - {r} \<subseteq> rank ` set ?others"
    using assms by auto
  then have "card (R - {r}) \<le> card (rank ` set ?others)"
    by (intro card_mono) simp_all
  also have "\<dots> \<le> card (set ?others)"
    by (intro card_image_le) simp
  also have "\<dots> \<le> length ?others"
    by (rule card_length)
  finally show ?thesis
    using split_by_rank [of xs r] by simp
qed

lemma five_ranks_no_quads:
  assumes "R \<subseteq> rank ` set xs" and "card R = 5" and "length xs \<le> 7"
  shows "getNOfAKind xs 4 = None"
proof (rule getNOfAKind_NoneI)
  fix r
  have fin: "finite R"
    using assms(2) by (intro card_ge_0_finite) simp
  have "card (R - {r}) \<ge> 4"
    using assms(2) fin by (simp add: card_Diff_singleton_if)
  then show "length (ofRank r xs) < 4"
    using count_bound [OF assms(1), of r] assms(3) by simp
qed

lemma five_ranks_no_fullHouse:
  assumes "R \<subseteq> rank ` set xs" and "card R = 5" and "length xs \<le> 7"
    and "getNOfAKind xs 3 = Some (t0 # rest)"
  shows "getNOfAKind (filter (\<lambda>c. rank c \<noteq> rank t0) xs) 2 = None"
proof (rule getNOfAKind_NoneI)
  fix r
  let ?others = "filter (\<lambda>c. rank c \<noteq> rank t0) xs"
  have fin: "finite R"
    using assms(2) by (intro card_ge_0_finite) simp
  have "3 \<le> length (ofRank (rank t0) xs)"
    using assms(4) by (rule group_rank)
  then have short: "length ?others \<le> 4"
    using split_by_rank [of xs "rank t0"] assms(3) by simp
  have sub: "R - {rank t0} \<subseteq> rank ` set ?others"
    using assms(1) by auto
  have "card (R - {rank t0} - {r}) \<ge> 3"
    using assms(2) fin by (simp add: card_Diff_singleton_if)
  then show "length (ofRank r ?others) < 2"
    using count_bound [OF sub, of r] short by simp
qed

lemma straight_result:
  assumes "length (h @ c) \<le> 7" and "R \<subseteq> rank ` set (h @ c)" and "card R = 5"
    and "\<And>s. length (filter (\<lambda>x. suit x = s) (h @ c)) < 5"
    and "getStraightHigh (sort_key (\<lambda>c. - RANK_VALUE (rank c)) (h @ c)) = Some v" and "v \<noteq> 0"
  shows "evaluateHand h c
       = Inr \<lparr>score = 400 + v, rankName = ''Straight'',
              bestFive = map Some (take 5 (sort_key (\<lambda>c. - RANK_VALUE (rank c)) (h @ c)))\<rparr>"
proof -
  let ?all = "sort_key (\<lambda>c. - RANK_VALUE (rank c)) (h @ c)"
  have R: "R \<subseteq> rank ` set ?all" and len: "length ?all \<le> 7"
    using assms(1,2) by simp_all
  have flush: "getFlushSuit ?all = None"
    using assms(4) by (intro getFlushSuit_None) simp
  have quads: "getNOfAKind ?all 4 = None"
    using R assms(3) len by (rule five_ranks_no_quads)
  have full: "getNOfAKind (filter (\<lambda>c. rank c \<noteq> rank t0) ?all) 2 = None"
    if "getNOfAKind ?all 3 = Some (t0 # rest)" for t0 rest
    using R assms(3) len that by (rule five_ranks_no_fullHouse)
  have rest: "fromFlush ?all None (Some v) trips
       = Inr \<lparr>score = 400 + v, rankName = ''Straight'', bestFive = map Some (take 5 ?all)\<rparr>"
    for trips
    using assms(6) by (simp add: fromFlush_def)
  have "fromQuads ?all None (Some v)
       = Inr \<lparr>score = 400 + v, rankName = ''Straight'', bestFive = map Some (take 5 ?all)\<rparr>"
  proof (cases "getNOfAKind ?all 3")
    case None
    then show ?thesis using quads rest by (simp add: fromQuads_def)
  next
    case (Some t)
    have "length t = 3" using Some by (rule group_length)
    then obtain t0 rest' where t: "t = t0 # rest'" by (cases t) auto
    then show ?thesis
      using quads rest Some full [of t0 rest'] by (simp add: fromQuads_def withFirst_def)
  qed
  then show ?thesis
    using flush assms(5) by (simp add: evaluateHand_def)
qed

lemma straightScan_run:
  assumes "straightScan u i streak = Some h" and "streak \<le> i"
    and "\<forall>k < streak. u ! (i - Suc k) - u ! (i - k) = 1"
  shows "\<exists>j. j + 4 < length u \<and> h = u ! j \<and> (\<forall>k < 4. u ! (j + k) - u ! (j + Suc k) = 1)"
  using assms
proof (induction u i streak rule: straightScan.induct)
  case (1 u i streak)
  have inside: "i + 1 < length u"
    using "1.prems"(1) by (simp add: straightScan.simps [of u i streak] split: if_splits)
  show ?case
  proof (cases "u ! i - u ! (i + 1) = 1")
    case step: True
    show ?thesis
    proof (cases "streak + 1 \<ge> 4")
      case True
      then have h: "h = u ! (i - 3)"
        using "1.prems"(1) inside step by (simp add: straightScan.simps [of u i streak])
      have i3: "3 \<le> i" and s3: "3 \<le> streak"
        using True "1.prems"(2) by simp_all
      have d0: "u ! (i - 3) - u ! (i - 2) = 1"
        using "1.prems"(3) s3 by (auto dest!: spec [of _ 2])
      have d1: "u ! (i - 2) - u ! (i - 1) = 1"
        using "1.prems"(3) s3 by (auto dest!: spec [of _ 1] simp: numeral_2_eq_2)
      have d2: "u ! (i - 1) - u ! i = 1"
        using "1.prems"(3) s3 by (auto dest!: spec [of _ 0])
      have "u ! (i - 3 + k) - u ! (i - 3 + Suc k) = 1" if "k < 4" for k
      proof -
        from that consider "k = 0" | "k = 1" | "k = 2" | "k = 3"
          by linarith
        then show ?thesis
        proof cases
          case 1
          have "i - 3 + 0 = i - 3" "i - 3 + Suc 0 = i - 2"
            using i3 by simp_all
          then show ?thesis using 1 d0 by simp
        next
          case 2
          have "i - 3 + 1 = i - 2" "i - 3 + Suc 1 = i - 1"
            using i3 by simp_all
          then show ?thesis using 2 d1 by simp
        next
          case 3
          have "i - 3 + 2 = i - 1" "i - 3 + Suc 2 = i"
            using i3 by simp_all
          then show ?thesis using 3 d2 by simp
        next
          case 4
          have "i - 3 + 3 = i" "i - 3 + Suc 3 = i + 1"
            using i3 by simp_all
          then show ?thesis using 4 step by simp
        qed
      qed
      moreover have "i - 3 + 4 < length u"
        using inside i3 by simp
      ultimately show ?thesis
        using h by blast
    next
      case False
      then have rec: "straightScan u (i + 1) (streak + 1) = Some h"
        using "1.prems"(1) inside step by (simp add: straightScan.simps [of u i streak])
      have "u ! (i + 1 - Suc k) - u ! (i + 1 - k) = 1" if "k < streak + 1" for k
      proof (cases k)
        case 0
        then show ?thesis using step by simp
      next
        case (Suc k')
        then have k': "k' < streak" using that by simp
        then have "k' < i" using "1.prems"(2) by simp
        then have "i + 1 - Suc k = i - Suc k'" "i + 1 - k = i - k'"
          using Suc by simp_all
        then show ?thesis using "1.prems"(3) k' by simp
      qed
      then have "\<forall>k < streak + 1. u ! (i + 1 - Suc k) - u ! (i + 1 - k) = 1"
        by blast
      moreover have "streak + 1 \<le> i + 1"
        using "1.prems"(2) by simp
      ultimately show ?thesis
        using "1.IH"(1) [OF inside step False rec] by blast
    qed
  next
    case False
    then have rec: "straightScan u (i + 1) 0 = Some h"
      using "1.prems"(1) inside by (simp add: straightScan.simps [of u i streak])
    show ?thesis
      using "1.IH"(2) [OF inside False rec] by simp
  qed
qed

lemma set_uniqueValues: "set (uniqueValues cards) = lowValues cards"
  by (simp add: uniqueValues_alt descValues_set lowValues_def)

lemma lowValues_range: "v \<in> lowValues cards \<Longrightarrow> 1 \<le> v \<and> v \<le> 14"
  using valuesOf_range [of v cards] by (auto simp: lowValues_def split: if_splits)

lemma lowValues_sort_key [simp]: "lowValues (sort_key f cards) = lowValues cards"
  by (simp add: lowValues_def)

lemma getStraightHigh_fiveInARow:
  assumes "getStraightHigh cards = Some h"
  shows "fiveInARow cards"
proof -
  let ?u = "uniqueValues cards"
  from assms have "straightScan ?u 0 0 = Some h"
    by (simp add: getStraightHigh_def)
  from straightScan_run [OF this]
  obtain j where j: "j + 4 < length ?u" "h = ?u ! j"
      and d: "\<And>k. k < 4 \<Longrightarrow> ?u ! (j + k) - ?u ! (j + Suc k) = 1"
    by auto
  have v: "?u ! (j + k) = h - int k" if "k \<le> 4" for k
    using that
  proof (induction k)
    case 0
    then show ?case using j(2) by simp
  next
    case (Suc k)
    then have "?u ! (j + k) = h - int k" and "k < 4"
      by simp_all
    then show ?case using d [of k] by simp
  qed
  have mem: "h - int k \<in> lowValues cards" if "k \<le> 4" for k
  proof -
    have "j + k < length ?u" using that j(1) by simp
    then have "?u ! (j + k) \<in> set ?u" by (rule nth_mem)
    then show ?thesis using v [OF that] by (simp add: set_uniqueValues)
  qed
  have "h - 4 \<in> lowValues cards" and "h \<in> lowValues cards"
    using mem [of 4] mem [of 0] by simp_all
  then have h: "5 \<le> h" "h \<le> 14"
    using lowValues_range [of "h - 4" cards] lowValues_range [of h cards] by simp_all
  have "h - x \<in> lowValues cards" if "0 \<le> x" "x \<le> 4" for x :: int
  proof -
    have "nat x \<le> 4" using that by simp
    from mem [OF this] that show ?thesis by simp
  qed
  then have "\<forall>k \<in> set [0..4]. h - k \<in> lowValues cards"
    by simp
  moreover have "h \<in> {5..14}"
    using h by simp
  then have "h \<in> set [5..14]"
    by (simp only: set_upto)
  ultimately show ?thesis
    unfolding fiveInARow_def by blast
qed

lemma distinct_ranks_single:
  "distinct (map rank xs) \<Longrightarrow> length (ofRank r xs) < 2"
proof (induction xs)
  case Nil
  then show ?case by (simp add: ofRank_def)
next
  case (Cons a xs)
  show ?case
  proof (cases "rank a = r")
    case True
    then have "r \<notin> rank ` set xs" using Cons.prems by auto
    then have "ofRank r xs = []" by (rule ofRank_absent)
    then show ?thesis using True by (simp add: ofRank_def)
  next
    case False
    then show ?thesis using Cons by (simp add: ofRank_def)
  qed
qed

lemma highCard_result:
  assumes "h @ c \<noteq> []" and "distinct (map rank (h @ c))"
    and "\<And>s. length (filter (\<lambda>x. suit x = s) (h @ c)) < 5"
    and "\<not> fiveInARow (h @ c)"
  shows "\<exists>e. evaluateHand h c = Inr e \<and> rankName e = ''High Card'' \<and> score e \<le> 14"
proof -
  let ?all = "sort_key (\<lambda>c. - RANK_VALUE (rank c)) (h @ c)"
  have flush: "getFlushSuit ?all = None"
    using assms(3) by (intro getFlushSuit_None) simp
  have "\<not> fiveInARow ?all"
    using assms(4) by (simp add: fiveInARow_def)
  then have straight: "getStraightHigh ?all = None"
    using getStraightHigh_fiveInARow [of ?all] by (cases "getStraightHigh ?all") auto
  have single: "length (ofRank r ?all) < 2" for r
    using distinct_ranks_single [OF assms(2), of r] by (simp add: ofRank_def)
  have groups: "getNOfAKind ?all 4 = None" "getNOfAKind ?all 3 = None"
      "getNOfAKind ?all 2 = None"
  proof -
    have "length (ofRank r ?all) < 4" and "length (ofRank r ?all) < 3" for r
      using single [of r] by simp_all
    then show "getNOfAKind ?all 4 = None" and "getNOfAKind ?all 3 = None"
      by (simp_all add: getNOfAKind_NoneI)
    show "getNOfAKind ?all 2 = None"
      using single by (simp add: getNOfAKind_NoneI)
  qed
  have "length ?all = length (h @ c)"
    by simp
  then have "?all \<noteq> []"
    using assms(1) by (metis length_0_conv)
  then obtain a rest where a: "?all = a # rest"
    by (cases ?all) auto
  have "evaluateHand h c = Inr \<lparr>score = RANK_VALUE (rank a), rankName = ''High Card'',
      bestFive = map Some (take 5 ?all)\<rparr>"
    using flush straight groups a
    by (simp add: evaluateHand_def fromQuads_def fromFlush_def withFirst_def)
  then show ?thesis
    using RANK_VALUE_range [of "rank a"] by simp
qed

text \<open>
  C8. Take inputs of at most seven cards with no five cards of one suit. An input
  whose ranks include A, 2, 3, 4, 5 and no 6 (the wheel) is evaluated as a Straight
  with the key 405; an input whose ranks include 2 to 6 and no 7 (a 6-high
  straight) is evaluated as a Straight with the key 406. An input that makes no
  better category than High Card (at least one card, no two cards of one rank, no
  five cards of one suit and no five values in a row, the ace counting high and
  low) is evaluated as High Card with a key of at most 14, and so is every input
  that \<^verbatim>\<open>evaluateHand\<close> labels High Card. So the wheel is strictly below every 6-high
  straight and strictly above every High Card hand.
\<close>

theorem wheel_between:
  assumes "length (hw @ cw) \<le> 7"
    and "{Ace, Two, Three, Four, Five} \<subseteq> rank ` set (hw @ cw)"
    and "Six \<notin> rank ` set (hw @ cw)"
    and "\<forall>s. length (filter (\<lambda>x. suit x = s) (hw @ cw)) < 5"
    and "length (h6 @ c6) \<le> 7"
    and "{Two, Three, Four, Five, Six} \<subseteq> rank ` set (h6 @ c6)"
    and "Seven \<notin> rank ` set (h6 @ c6)"
    and "\<forall>s. length (filter (\<lambda>x. suit x = s) (h6 @ c6)) < 5"
    and "hh @ ch \<noteq> []" and "distinct (map rank (hh @ ch))"
    and "\<forall>s. length (filter (\<lambda>x. suit x = s) (hh @ ch)) < 5"
    and "\<not> fiveInARow (hh @ ch)"
  shows "\<exists>ew e6 eh. evaluateHand hw cw = Inr ew \<and> rankName ew = ''Straight'' \<and> score ew = 405
           \<and> evaluateHand h6 c6 = Inr e6 \<and> rankName e6 = ''Straight'' \<and> score e6 = 406
           \<and> evaluateHand hh ch = Inr eh \<and> rankName eh = ''High Card'' \<and> score eh \<le> 14
           \<and> score ew < score e6 \<and> score eh < score ew
           \<and> (\<forall>h c e. evaluateHand h c = Inr e \<and> rankName e = ''High Card''
                  \<longrightarrow> score e < score ew)"
proof -
  let ?sorted = "sort_key (\<lambda>c. - RANK_VALUE (rank c))"
  have "RANK_VALUE r \<in> valuesOf (hw @ cw)" if "r \<in> {Ace, Two, Three, Four, Five}" for r
    using that assms(2) by (intro valuesOf_rankI) blast
  from this [of Ace] this [of Five] this [of Four] this [of Three] this [of Two]
  have "{14, 5, 4, 3, 2} \<subseteq> valuesOf (hw @ cw)"
    by simp
  moreover have "6 \<notin> valuesOf (hw @ cw)"
    using assms(3) valuesOf_rankD [of 6 "hw @ cw" Six] RANK_VALUE_6 by blast
  ultimately have shw: "getStraightHigh (?sorted (hw @ cw)) = Some 5"
    using assms(1) by (intro getStraightHigh_wheel) simp_all
  have cw5: "card {Ace, Two, Three, Four, Five} = 5"
    by simp
  have nfw: "length (filter (\<lambda>x. suit x = s) (hw @ cw)) < 5" for s
    using assms(4) by blast
  have w: "evaluateHand hw cw
      = Inr \<lparr>score = 400 + 5, rankName = ''Straight'',
             bestFive = map Some (take 5 (?sorted (hw @ cw)))\<rparr>"
    using straight_result [OF assms(1,2) cw5 nfw shw] by simp
  have "RANK_VALUE r \<in> valuesOf (h6 @ c6)" if "r \<in> {Two, Three, Four, Five, Six}" for r
    using that assms(6) by (intro valuesOf_rankI) blast
  from this [of Six] this [of Five] this [of Four] this [of Three] this [of Two]
  have "{6, 5, 4, 3, 2} \<subseteq> valuesOf (h6 @ c6)"
    by simp
  moreover have "7 \<notin> valuesOf (h6 @ c6)"
    using assms(7) valuesOf_rankD [of 7 "h6 @ c6" Seven] RANK_VALUE_7 by blast
  ultimately have sh6: "getStraightHigh (?sorted (h6 @ c6)) = Some 6"
    using assms(5) by (intro getStraightHigh_six) simp_all
  have c65: "card {Two, Three, Four, Five, Six} = 5"
    by simp
  have nf6: "length (filter (\<lambda>x. suit x = s) (h6 @ c6)) < 5" for s
    using assms(8) by blast
  have s: "evaluateHand h6 c6
      = Inr \<lparr>score = 400 + 6, rankName = ''Straight'',
             bestFive = map Some (take 5 (?sorted (h6 @ c6)))\<rparr>"
    using straight_result [OF assms(5,6) c65 nf6 sh6] by simp
  have nfh: "length (filter (\<lambda>x. suit x = s) (hh @ ch)) < 5" for s
    using assms(11) by blast
  from highCard_result [OF assms(9,10) nfh assms(12)]
  obtain eh where eh: "evaluateHand hh ch = Inr eh" "rankName eh = ''High Card''" "score eh \<le> 14"
    by blast
  let ?ew = "\<lparr>score = 400 + 5, rankName = ''Straight'',
             bestFive = map Some (take 5 (?sorted (hw @ cw)))\<rparr>"
  let ?e6 = "\<lparr>score = 400 + 6, rankName = ''Straight'',
             bestFive = map Some (take 5 (?sorted (h6 @ c6)))\<rparr>"
  have label: "\<forall>h c e. evaluateHand h c = Inr e \<and> rankName e = ''High Card''
      \<longrightarrow> score e < score ?ew"
    using evaluateHand_HighCard by fastforce
  have "rankName ?ew = ''Straight''" "score ?ew = 405" "rankName ?e6 = ''Straight''"
      "score ?e6 = 406" "score ?ew < score ?e6" "score eh < score ?ew"
    using eh(3) by simp_all
  with w s eh label show ?thesis
    by blast
qed

theorem wheel_between_witness:
  "length ([mkCard Ace Spades, mkCard Two Hearts] @ [mkCard Three Diamonds, mkCard Four Clubs, mkCard Five Spades]) \<le> 7
   \<and> {Ace, Two, Three, Four, Five} \<subseteq> rank ` set ([mkCard Ace Spades, mkCard Two Hearts] @ [mkCard Three Diamonds, mkCard Four Clubs, mkCard Five Spades])
   \<and> Six \<notin> rank ` set ([mkCard Ace Spades, mkCard Two Hearts] @ [mkCard Three Diamonds, mkCard Four Clubs, mkCard Five Spades])
   \<and> (\<forall>s. length (filter (\<lambda>x. suit x = s) ([mkCard Ace Spades, mkCard Two Hearts] @ [mkCard Three Diamonds, mkCard Four Clubs, mkCard Five Spades])) < 5)
   \<and> length ([mkCard Six Spades, mkCard Two Hearts] @ [mkCard Three Diamonds, mkCard Four Clubs, mkCard Five Spades]) \<le> 7
   \<and> {Two, Three, Four, Five, Six} \<subseteq> rank ` set ([mkCard Six Spades, mkCard Two Hearts] @ [mkCard Three Diamonds, mkCard Four Clubs, mkCard Five Spades])
   \<and> Seven \<notin> rank ` set ([mkCard Six Spades, mkCard Two Hearts] @ [mkCard Three Diamonds, mkCard Four Clubs, mkCard Five Spades])
   \<and> (\<forall>s. length (filter (\<lambda>x. suit x = s) ([mkCard Six Spades, mkCard Two Hearts] @ [mkCard Three Diamonds, mkCard Four Clubs, mkCard Five Spades])) < 5)
   \<and> [mkCard Ace Spades, mkCard King Hearts] @ [mkCard Nine Diamonds, mkCard Seven Clubs, mkCard Four Spades] \<noteq> []
   \<and> distinct (map rank ([mkCard Ace Spades, mkCard King Hearts] @ [mkCard Nine Diamonds, mkCard Seven Clubs, mkCard Four Spades]))
   \<and> (\<forall>s. length (filter (\<lambda>x. suit x = s) ([mkCard Ace Spades, mkCard King Hearts] @ [mkCard Nine Diamonds, mkCard Seven Clubs, mkCard Four Spades])) < 5)
   \<and> \<not> fiveInARow ([mkCard Ace Spades, mkCard King Hearts] @ [mkCard Nine Diamonds, mkCard Seven Clubs, mkCard Four Spades])
   \<and> evaluateHand [mkCard Ace Spades, mkCard Two Hearts] [mkCard Three Diamonds, mkCard Four Clubs, mkCard Five Spades]
       = Inr \<lparr>score = 405, rankName = ''Straight'',
              bestFive = [Some (mkCard Ace Spades), Some (mkCard Five Spades),
                Some (mkCard Four Clubs), Some (mkCard Three Diamonds), Some (mkCard Two Hearts)]\<rparr>
   \<and> evaluateHand [mkCard Six Spades, mkCard Two Hearts] [mkCard Three Diamonds, mkCard Four Clubs, mkCard Five Spades]
       = Inr \<lparr>score = 406, rankName = ''Straight'',
              bestFive = [Some (mkCard Six Spades), Some (mkCard Five Spades),
                Some (mkCard Four Clubs), Some (mkCard Three Diamonds), Some (mkCard Two Hearts)]\<rparr>
   \<and> evaluateHand [mkCard Ace Spades, mkCard King Hearts] [mkCard Nine Diamonds, mkCard Seven Clubs, mkCard Four Spades]
       = Inr \<lparr>score = 14, rankName = ''High Card'',
              bestFive = [Some (mkCard Ace Spades), Some (mkCard King Hearts),
                Some (mkCard Nine Diamonds), Some (mkCard Seven Clubs), Some (mkCard Four Spades)]\<rparr>
   \<and> (\<exists>ew e6 eh. evaluateHand [mkCard Ace Spades, mkCard Two Hearts] [mkCard Three Diamonds, mkCard Four Clubs, mkCard Five Spades] = Inr ew \<and> evaluateHand [mkCard Six Spades, mkCard Two Hearts] [mkCard Three Diamonds, mkCard Four Clubs, mkCard Five Spades] = Inr e6
         \<and> evaluateHand [mkCard Ace Spades, mkCard King Hearts] [mkCard Nine Diamonds, mkCard Seven Clubs, mkCard Four Spades] = Inr eh
         \<and> rankName ew = ''Straight'' \<and> rankName e6 = ''Straight'' \<and> rankName eh = ''High Card''
         \<and> score ew < score e6 \<and> score eh < score ew)"
proof -
  have w1: "length ([mkCard Ace Spades, mkCard Two Hearts] @ [mkCard Three Diamonds, mkCard Four Clubs, mkCard Five Spades]) \<le> 7" by simp
  have w2: "{Ace, Two, Three, Four, Five} \<subseteq> rank ` set ([mkCard Ace Spades, mkCard Two Hearts] @ [mkCard Three Diamonds, mkCard Four Clubs, mkCard Five Spades])" by simp
  have w3: "Six \<notin> rank ` set ([mkCard Ace Spades, mkCard Two Hearts] @ [mkCard Three Diamonds, mkCard Four Clubs, mkCard Five Spades])" by simp
  have w4: "\<forall>s. length (filter (\<lambda>x. suit x = s) ([mkCard Ace Spades, mkCard Two Hearts] @ [mkCard Three Diamonds, mkCard Four Clubs, mkCard Five Spades])) < 5" by simp
  have s1: "length ([mkCard Six Spades, mkCard Two Hearts] @ [mkCard Three Diamonds, mkCard Four Clubs, mkCard Five Spades]) \<le> 7" by simp
  have s2: "{Two, Three, Four, Five, Six} \<subseteq> rank ` set ([mkCard Six Spades, mkCard Two Hearts] @ [mkCard Three Diamonds, mkCard Four Clubs, mkCard Five Spades])" by simp
  have s3: "Seven \<notin> rank ` set ([mkCard Six Spades, mkCard Two Hearts] @ [mkCard Three Diamonds, mkCard Four Clubs, mkCard Five Spades])" by simp
  have s4: "\<forall>s. length (filter (\<lambda>x. suit x = s) ([mkCard Six Spades, mkCard Two Hearts] @ [mkCard Three Diamonds, mkCard Four Clubs, mkCard Five Spades])) < 5" by simp
  have h1: "[mkCard Ace Spades, mkCard King Hearts] @ [mkCard Nine Diamonds, mkCard Seven Clubs, mkCard Four Spades] \<noteq> []" by simp
  have h2: "distinct (map rank ([mkCard Ace Spades, mkCard King Hearts] @ [mkCard Nine Diamonds, mkCard Seven Clubs, mkCard Four Spades]))" by simp
  have h3: "\<forall>s. length (filter (\<lambda>x. suit x = s) ([mkCard Ace Spades, mkCard King Hearts] @ [mkCard Nine Diamonds, mkCard Seven Clubs, mkCard Four Spades])) < 5" by simp
  have h4: "\<not> fiveInARow ([mkCard Ace Spades, mkCard King Hearts] @ [mkCard Nine Diamonds, mkCard Seven Clubs, mkCard Four Spades])"
    by code_simp
  have ew: "evaluateHand [mkCard Ace Spades, mkCard Two Hearts] [mkCard Three Diamonds, mkCard Four Clubs, mkCard Five Spades]
       = Inr \<lparr>score = 405, rankName = ''Straight'',
              bestFive = [Some (mkCard Ace Spades), Some (mkCard Five Spades),
                Some (mkCard Four Clubs), Some (mkCard Three Diamonds), Some (mkCard Two Hearts)]\<rparr>"
    by code_simp
  have e6: "evaluateHand [mkCard Six Spades, mkCard Two Hearts] [mkCard Three Diamonds, mkCard Four Clubs, mkCard Five Spades]
       = Inr \<lparr>score = 406, rankName = ''Straight'',
              bestFive = [Some (mkCard Six Spades), Some (mkCard Five Spades),
                Some (mkCard Four Clubs), Some (mkCard Three Diamonds), Some (mkCard Two Hearts)]\<rparr>"
    by code_simp
  have eh: "evaluateHand [mkCard Ace Spades, mkCard King Hearts] [mkCard Nine Diamonds, mkCard Seven Clubs, mkCard Four Spades]
       = Inr \<lparr>score = 14, rankName = ''High Card'',
              bestFive = [Some (mkCard Ace Spades), Some (mkCard King Hearts),
                Some (mkCard Nine Diamonds), Some (mkCard Seven Clubs), Some (mkCard Four Spades)]\<rparr>"
    by code_simp
  from wheel_between [OF w1 w2 w3 w4 s1 s2 s3 s4 h1 h2 h3 h4]
  have "\<exists>ew e6 eh. evaluateHand [mkCard Ace Spades, mkCard Two Hearts] [mkCard Three Diamonds, mkCard Four Clubs, mkCard Five Spades] = Inr ew \<and> evaluateHand [mkCard Six Spades, mkCard Two Hearts] [mkCard Three Diamonds, mkCard Four Clubs, mkCard Five Spades] = Inr e6
         \<and> evaluateHand [mkCard Ace Spades, mkCard King Hearts] [mkCard Nine Diamonds, mkCard Seven Clubs, mkCard Four Spades] = Inr eh
         \<and> rankName ew = ''Straight'' \<and> rankName e6 = ''Straight'' \<and> rankName eh = ''High Card''
         \<and> score ew < score e6 \<and> score eh < score ew"
    by blast
  then show ?thesis
    using w1 w2 w3 w4 s1 s2 s3 s4 h1 h2 h3 h4 ew e6 eh by blast
qed

text \<open>
  The ace counts low only when it is there: king, five, four, three and two make
  no straight and are evaluated as High Card.
\<close>

lemma king_low_is_no_wheel:
  "evaluateHand [mkCard King Spades, mkCard Two Hearts] [mkCard Three Diamonds, mkCard Four Clubs, mkCard Five Spades]
     = Inr \<lparr>score = 13, rankName = ''High Card'',
            bestFive = [Some (mkCard King Spades), Some (mkCard Five Spades),
              Some (mkCard Four Clubs), Some (mkCard Three Diamonds), Some (mkCard Two Hearts)]\<rparr>"
  by code_simp

section \<open>Table properties\<close>

subsection \<open>Basic facts\<close>

lemma addLog_fields [simp]:
  "players (addLog m t s) = players s" "pot (addLog m t s) = pot s"
  "currentBet (addLog m t s) = currentBet s" "phase (addLog m t s) = phase s"
  "activePlayerIdx (addLog m t s) = activePlayerIdx s" "dealerIdx (addLog m t s) = dealerIdx s"
  "timeouts (addLog m t s) = timeouts s" "deck (addLog m t s) = deck s"
  "communityCards (addLog m t s) = communityCards s" "winnerIdx (addLog m t s) = winnerIdx s"
  "showCards (addLog m t s) = showCards s" "autoNextTimer (addLog m t s) = autoNextTimer s"
  by (simp_all add: addLog_def)

lemma schedule_fields [simp]:
  "players (schedule ms s) = players s" "pot (schedule ms s) = pot s"
  "currentBet (schedule ms s) = currentBet s" "phase (schedule ms s) = phase s"
  "activePlayerIdx (schedule ms s) = activePlayerIdx s" "dealerIdx (schedule ms s) = dealerIdx s"
  "gameLogs (schedule ms s) = gameLogs s" "deck (schedule ms s) = deck s"
  "communityCards (schedule ms s) = communityCards s" "winnerIdx (schedule ms s) = winnerIdx s"
  "showCards (schedule ms s) = showCards s" "autoNextTimer (schedule ms s) = autoNextTimer s"
  by (simp_all add: schedule_def)

lemma length_mutate [simp]: "length (mutate ps i f) = length ps"
  by (simp add: mutate_def)

lemma nth_mutate: "i < length ps \<Longrightarrow> mutate ps i f ! j = (if j = i then f (ps ! i) else ps ! j)"
  by (simp add: mutate_def)

lemma sum_list_update_int:
  "i < length xs \<Longrightarrow> sum_list (xs[i := v]) = sum_list xs - xs ! i + (v::int)"
proof (induction xs arbitrary: i)
  case Nil
  then show ?case by simp
next
  case (Cons x xs)
  then show ?case by (cases i) simp_all
qed

lemma sum_chips_mutate:
  "i < length ps \<Longrightarrow>
   sum_list (map chips (mutate ps i f)) = sum_list (map chips ps) - chips (ps ! i) + chips (f (ps ! i))"
  by (simp add: mutate_def map_update sum_list_update_int)

lemma mutate_nonempty [simp]: "mutate ps i f = [] \<longleftrightarrow> ps = []"
  by (simp add: mutate_def)

lemma moveToNextPlayer_keeps:
  assumes "moveToNextPlayer s = Inr s'"
  shows "players s' = players s" and "pot s' = pot s" and "phase s' = phase s"
    and "currentBet s' = currentBet s" and "gameLogs s' = gameLogs s"
  using assms by (auto simp: moveToNextPlayer_def Let_def split: if_splits)

lemma moveToNextPlayer_total:
  "players s \<noteq> [] \<Longrightarrow> \<exists>s'. moveToNextPlayer s = Inr s'"
  by (simp add: moveToNextPlayer_def Let_def)

lemma moveToNextPlayer_same:
  assumes "moveToNextPlayer s = Inr s'"
  shows "players s' = players s \<and> pot s' = pot s \<and> phase s' = phase s
       \<and> currentBet s' = currentBet s \<and> gameLogs s' = gameLogs s"
  using assms by (auto simp: moveToNextPlayer_def Let_def split: if_splits)

lemma chips_bet_update [simp]: "chips \<circ> bet_update f = chips"
  by (simp add: fun_eq_iff)

subsection \<open>Raise\<close>

text \<open>
  C7 (amended). For every \<^verbatim>\<open>handleRaise(amount)\<close> with the active index in range, let
  the new total be \<open>currentBet + amount\<close> and the required chips
  \<open>newTotal - player.bet\<close>. If \<open>required > player.chips\<close> the handler returns normally
  with the state unchanged (chips, bets, pot, current bet, turn and log): the
  rejection is silent, no error is returned or logged. Otherwise the
  player's bet becomes the new total, the chips go down by the required amount,
  \<^verbatim>\<open>currentBet\<close> becomes the new total and the pot grows by the required amount.
\<close>

theorem handleRaise_effect:
  assumes "activePlayerIdx s < length (players s)"
  shows "(currentBet s + amount - bet (players s ! activePlayerIdx s)
                 > chips (players s ! activePlayerIdx s) \<longrightarrow>
           handleRaise amount s = Inr s)
       \<and> (\<not> currentBet s + amount - bet (players s ! activePlayerIdx s)
                 > chips (players s ! activePlayerIdx s) \<longrightarrow>
           (\<exists>s'. handleRaise amount s = Inr s'
               \<and> bet (players s' ! activePlayerIdx s) = currentBet s + amount
               \<and> chips (players s' ! activePlayerIdx s)
                   = chips (players s ! activePlayerIdx s)
                     - (currentBet s + amount - bet (players s ! activePlayerIdx s))
               \<and> currentBet s' = currentBet s + amount
               \<and> pot s' = pot s + (currentBet s + amount - bet (players s ! activePlayerIdx s))))"
proof -
  let ?i = "activePlayerIdx s"
  let ?needed = "currentBet s + amount - bet (players s ! ?i)"
  have rej: "handleRaise amount s = Inr s" if "?needed > chips (players s ! ?i)"
    using that assms by (simp add: handleRaise_def Let_def)
  have acc: "\<exists>s'. handleRaise amount s = Inr s'
               \<and> bet (players s' ! ?i) = currentBet s + amount
               \<and> chips (players s' ! ?i) = chips (players s ! ?i) - ?needed
               \<and> currentBet s' = currentBet s + amount
               \<and> pot s' = pot s + ?needed" if "\<not> ?needed > chips (players s ! ?i)"
  proof -
    let ?s1 = "addLog (name (players s ! ?i) @ '' raises to '' @ showInt (currentBet s + amount) @ ''.'') LogAction
                  (s\<lparr>players := mutate (players s) ?i
                        (\<lambda>p. p\<lparr>chips := chips p - ?needed, bet := currentBet s + amount\<rparr>)\<rparr>)"
    have "players ?s1 \<noteq> []" using assms by auto
    then obtain s2 where s2: "moveToNextPlayer ?s1 = Inr s2"
      using moveToNextPlayer_total by blast
    have "handleRaise amount s = Inr (s2\<lparr>pot := pot s + ?needed, currentBet := currentBet s + amount\<rparr>)"
      using that assms s2 by (simp add: handleRaise_def Let_def)
    moreover have "players s2 = players ?s1"
      using s2 by (rule moveToNextPlayer_keeps)
    ultimately show ?thesis
      using assms by (simp add: nth_mutate)
  qed
  show ?thesis using rej acc by simp
qed

theorem handleRaise_effect_witness:
  "(0::int) + 20 + 5000 - 10 > 990
   \<and> handleRaise 5000 (mkTable PreFlop [mkPlayer ''A'' 980 20 Active [], mkPlayer ''B'' 990 10 Active []] [] [] 30 20 1) = Inr (mkTable PreFlop [mkPlayer ''A'' 980 20 Active [], mkPlayer ''B'' 990 10 Active []] [] [] 30 20 1)
   \<and> \<not> (20::int) + 20 - 10 > 990
   \<and> handleRaise 20 (mkTable PreFlop [mkPlayer ''A'' 980 20 Active [], mkPlayer ''B'' 990 10 Active []] [] [] 30 20 1)
     = Inr ((mkTable PreFlop [mkPlayer ''A'' 980 20 Active [], mkPlayer ''B'' 960 40 Active []]
              [] [] 60 40 0)
           \<lparr>gameLogs := [\<lparr>message = ''B raises to 40.'', log_type = LogAction\<rparr>]\<rparr>)"
proof -
  have i: "activePlayerIdx (mkTable PreFlop [mkPlayer ''A'' 980 20 Active [], mkPlayer ''B'' 990 10 Active []] [] [] 30 20 1) < length (players (mkTable PreFlop [mkPlayer ''A'' 980 20 Active [], mkPlayer ''B'' 990 10 Active []] [] [] 30 20 1))" by simp
  have acc: "handleRaise 20 (mkTable PreFlop [mkPlayer ''A'' 980 20 Active [], mkPlayer ''B'' 990 10 Active []] [] [] 30 20 1)
     = Inr ((mkTable PreFlop [mkPlayer ''A'' 980 20 Active [], mkPlayer ''B'' 960 40 Active []]
              [] [] 60 40 0)
           \<lparr>gameLogs := [\<lparr>message = ''B raises to 40.'', log_type = LogAction\<rparr>]\<rparr>)"
    by code_simp
  show ?thesis
    using handleRaise_effect [OF i, of 5000] handleRaise_effect [OF i, of 20] acc by simp
qed

text \<open>
  C7 as stated fails in one point: the rejected raise surfaces no error. The handler
  returns normally (\<open>Inr\<close>, not \<open>Inl\<close>) with the very state it was given, its log
  included.
\<close>

theorem rejected_raise_is_silent:
  "handleRaise 5000 (mkTable PreFlop [mkPlayer ''A'' 980 20 Active [], mkPlayer ''B'' 990 10 Active []] [] [] 30 20 1) = Inr (mkTable PreFlop [mkPlayer ''A'' 980 20 Active [], mkPlayer ''B'' 990 10 Active []] [] [] 30 20 1)
   \<and> \<not> isl (handleRaise 5000 (mkTable PreFlop [mkPlayer ''A'' 980 20 Active [], mkPlayer ''B'' 990 10 Active []] [] [] 30 20 1))"
  by code_simp

subsection \<open>Chips\<close>

lemma handleShowdown_phase: "handleShowdown s = Inr s' \<Longrightarrow> phase s' = Showdown"
  by (auto simp: handleShowdown_def Let_def split: if_splits sum.splits option.splits prod.splits)

lemma handleCheckCall_bank:
  assumes "handleCheckCall s = Inr s'"
  shows "bank s' = bank s \<and> phase s' = phase s"
proof -
  let ?i = "activePlayerIdx s"
  have i: "?i < length (players s)"
    using assms by (auto simp: handleCheckCall_def split: if_splits)
  show ?thesis
    using assms i
    by (auto simp: handleCheckCall_def Let_def sum_chips_mutate
             split: if_splits sum.splits dest!: moveToNextPlayer_same)
qed

lemma handleRaise_bank:
  assumes "handleRaise amount s = Inr s'"
  shows "bank s' = bank s \<and> phase s' = phase s"
proof -
  let ?i = "activePlayerIdx s"
  have i: "?i < length (players s)"
    using assms by (auto simp: handleRaise_def split: if_splits)
  show ?thesis
    using assms i
    by (auto simp: handleRaise_def Let_def sum_chips_mutate
             split: if_splits sum.splits dest!: moveToNextPlayer_same)
qed

lemma handleFold_bank:
  assumes "handleFold s = Inr s'"
  shows "phase s' = Showdown \<or> (bank s' = bank s \<and> phase s' = phase s)"
proof -
  let ?i = "activePlayerIdx s"
  have i: "?i < length (players s)"
    using assms by (auto simp: handleFold_def split: if_splits)
  show ?thesis
    using assms i
    by (auto simp: handleFold_def Let_def sum_chips_mutate
             split: if_splits sum.splits list.splits option.splits dest!: moveToNextPlayer_same)
qed

lemma nextPhase_deals:
  assumes "nextPhase s = Inr r" and "phase s = PreFlop \<or> phase s = Flop \<or> phase s = Turn"
  shows "players r = map (\<lambda>p. p\<lparr>bet := 0\<rparr>) (players s) \<and> phase r \<noteq> Showdown"
  using assms
  by (auto simp: nextPhase_def Let_def split: if_splits sum.splits prod.splits)

lemma nextPhase_shows:
  assumes "nextPhase s = Inr r" and "\<not> (phase s = PreFlop \<or> phase s = Flop \<or> phase s = Turn)"
  shows "handleShowdown (s\<lparr>players := map (\<lambda>p. p\<lparr>bet := 0\<rparr>) (players s), currentBet := 0,
           activePlayerIdx := scanFrom (\<lambda>p. status p \<noteq> Active \<and> status p \<noteq> AllIn)
             (map (\<lambda>p. p\<lparr>bet := 0\<rparr>) (players s))
             ((dealerIdx s + 1) mod length (map (\<lambda>p. p\<lparr>bet := 0\<rparr>) (players s))) 0\<rparr>) = Inr r"
  using assms
  by (auto simp: nextPhase_def Let_def split: if_splits)

lemma runPending_bank:
  assumes "runPending c s = Inr s'"
  shows "phase s' = Showdown \<or> bank s' = bank s"
proof (cases "seenPhase c = PreFlop \<or> seenPhase c = Flop \<or> seenPhase c = Turn")
  case True
  let ?v = "s\<lparr>phase := seenPhase c, deck := seenDeck c,
               communityCards := seenCommunityCards c, pot := seenPot c,
               dealerIdx := seenDealerIdx c\<rparr>"
  from assms True obtain r where r: "nextPhase ?v = Inr r"
    and s': "s' = r\<lparr>pot := pot s, dealerIdx := dealerIdx s\<rparr>"
    by (auto simp: runPending_def split: sum.splits)
  have "players r = map (\<lambda>p. p\<lparr>bet := 0\<rparr>) (players ?v)"
    using nextPhase_deals [OF r] True by simp
  then show ?thesis
    using s' by simp
next
  case False
  let ?v = "s\<lparr>phase := seenPhase c, deck := seenDeck c,
               communityCards := seenCommunityCards c, pot := seenPot c,
               dealerIdx := seenDealerIdx c\<rparr>"
  from assms False obtain r where r: "nextPhase ?v = Inr r"
    and s': "s' = r\<lparr>pot := pot s, dealerIdx := dealerIdx s, deck := deck s,
                    communityCards := communityCards s\<rparr>"
    by (auto simp: runPending_def split: sum.splits)
  have "phase r = Showdown"
    using nextPhase_shows [OF r] False handleShowdown_phase by simp
  then show ?thesis
    using s' by simp
qed

lemma applyEvent_bank:
  assumes "applyEvent e s = Inr s'"
  shows "phase s' = Showdown \<or> bank s' = bank s"
proof (cases e)
  case FoldE
  then show ?thesis using assms handleFold_bank [of s s'] by auto
next
  case CheckCallE
  then show ?thesis using assms handleCheckCall_bank [of s s'] by auto
next
  case (RaiseE amount)
  then show ?thesis using assms handleRaise_bank [of amount s s'] by auto
next
  case (NextPhaseE k)
  show ?thesis
  proof (cases "k < length (timeouts s)")
    case True
    then have "runPending (timeouts s ! k)
        (s\<lparr>timeouts := take k (timeouts s) @ drop (Suc k) (timeouts s)\<rparr>) = Inr s'"
      using assms NextPhaseE by simp
    from runPending_bank [OF this] show ?thesis by simp
  next
    case False
    then show ?thesis using assms NextPhaseE by simp
  qed
qed

lemma run_bank:
  assumes "handGoesOn es s" and "run es s = Inr s'"
  shows "bank s' = bank s"
  using assms
proof (induction es arbitrary: s)
  case Nil
  then show ?case by simp
next
  case (Cons e es)
  then obtain s1 where s1: "applyEvent e s = Inr s1" and live: "phase s1 \<noteq> Showdown"
      and on: "handGoesOn es s1" and rest: "run es s1 = Inr s'"
    by (auto split: sum.splits)
  from Cons.IH [OF on rest] applyEvent_bank [OF s1] live show ?case by simp
qed

lemma reset_chips:
  "map chips (filter (\<lambda>p. status p \<noteq> Busted) (map resetPlayer ps))
   = map chips (filter (\<lambda>p. 0 < chips p) ps)"
  by (induction ps) (simp_all add: resetPlayer_def)

lemma dealHands_chips:
  "dealHands ps d = Inr (ps', d') \<Longrightarrow> map chips ps' = map chips ps"
proof (induction ps arbitrary: d ps' d')
  case Nil
  then show ?case by simp
next
  case (Cons p ps)
  then show ?case
    by (auto split: sum.splits prod.splits)
qed

lemma dealHands_length:
  "dealHands ps d = Inr (ps', d') \<Longrightarrow> length ps' = length ps"
  using dealHands_chips [of ps d ps' d'] by (metis length_map)

lemma sum_chips_flag:
  assumes "i < length ps" and "chips (f (ps ! i)) = chips (ps ! i)"
  shows "sum_list (map chips (mutate ps i f)) = sum_list (map chips ps)"
  using assms by (simp add: sum_chips_mutate)

lemma startNewHand_bank:
  assumes "startNewHand rnd mkId newDealerIdx currentPlayers s = Inr s'" and "phase s' = PreFlop"
  shows "bank s' = sum_list (map chips (filter (\<lambda>p. 0 < chips p) currentPlayers))"
proof -
  let ?reset = "filter (\<lambda>p. status p \<noteq> Busted) (map resetPlayer currentPlayers)"
  let ?n = "length ?reset"
  let ?sb = "(newDealerIdx + 1) mod ?n"
  let ?bb = "(newDealerIdx + 2) mod ?n"
  let ?ps1 = "mutate ?reset (newDealerIdx mod ?n) (\<lambda>p. p\<lparr>isDealer := True\<rparr>)"
  let ?ps2 = "mutate ?ps1 ?sb (\<lambda>p. p\<lparr>isSmallBlind := True\<rparr>)"
  let ?ps3 = "mutate ?ps2 ?bb (\<lambda>p. p\<lparr>isBigBlind := True\<rparr>)"
  have n: "\<not> ?n < 2"
    using assms by (auto simp: startNewHand_def Let_def split: prod.splits)
  then have "0 < ?n" by linarith
  then have idx: "newDealerIdx mod ?n < ?n" "?sb < ?n" "?bb < ?n"
    by (rule mod_less_divisor)+
  obtain h a where sh: "shuffleDeck rnd [createDeck mkId] 0 = (h, a)"
    by (cases "shuffleDeck rnd [createDeck mkId] 0")
  obtain ps4 d4 where deal: "dealHands ?ps3 (h ! a) = Inr (ps4, d4)"
    using assms(1) n sh by (auto simp: startNewHand_def Let_def split: sum.splits)
  define sbAmt where "sbAmt = min (chips (ps4 ! ?sb)) SMALL_BLIND"
  define ps5 where "ps5 = mutate ps4 ?sb (\<lambda>p. p\<lparr>chips := chips p - sbAmt, bet := sbAmt\<rparr>)"
  define bbAmt where "bbAmt = min (chips (ps5 ! ?bb)) BIG_BLIND"
  define ps6 where "ps6 = mutate ps5 ?bb (\<lambda>p. p\<lparr>chips := chips p - bbAmt, bet := bbAmt\<rparr>)"
  have res: "players s' = ps6" "pot s' = 0 + sbAmt + bbAmt"
    using assms(1) n sh deal unfolding sbAmt_def ps5_def bbAmt_def ps6_def
    by (auto simp: startNewHand_def Let_def)
  have len4: "length ps4 = ?n"
    using dealHands_length [OF deal] by simp
  have "sum_list (map chips ?ps3) = sum_list (map chips ?reset)"
    using idx by (simp add: sum_chips_flag nth_mutate)
  then have c4: "sum_list (map chips ps4) = sum_list (map chips ?reset)"
    using dealHands_chips [OF deal] by simp
  have c5: "sum_list (map chips ps5) = sum_list (map chips ps4) - sbAmt"
    unfolding ps5_def using idx len4 by (simp add: sum_chips_mutate)
  have "length ps5 = ?n"
    unfolding ps5_def using len4 by simp
  then have c6: "sum_list (map chips ps6) = sum_list (map chips ps5) - bbAmt"
    unfolding ps6_def using idx by (simp add: sum_chips_mutate)
  have "bank s' = sum_list (map chips ?reset)"
    unfolding res c6 c5 c4 by simp
  then show ?thesis
    by (simp only: reset_chips)
qed

subsection \<open>Showdown\<close>

lemma straightScan_mem: "straightScan u i st = Some v \<Longrightarrow> v \<in> set u"
proof (induction u i st rule: straightScan.induct)
  case (1 u i streak)
  show ?case
  proof (cases "i + 1 < length u")
    case False
    then show ?thesis using "1.prems" by (simp add: straightScan.simps)
  next
    case True
    then have "i - 3 < length u" by simp
    then have "u ! (i - 3) \<in> set u" by (rule nth_mem)
    then show ?thesis
      using True "1.prems" "1.IH"
      by (auto simp: straightScan.simps [of u i streak] split: if_splits)
  qed
qed

lemma getStraightHigh_pos: "getStraightHigh cards = Some v \<Longrightarrow> 1 \<le> v"
proof -
  assume "getStraightHigh cards = Some v"
  then have "v \<in> set (uniqueValues cards)"
    by (simp add: getStraightHigh_def straightScan_mem)
  then have "v \<in> valuesOf cards \<or> v = 1"
    by (auto simp: uniqueValues_alt descValues_set split: if_splits)
  then show ?thesis using valuesOf_range by fastforce
qed

lemma RANK_VALUE_nonneg: "0 \<le> RANK_VALUE r" "0 \<le> k \<Longrightarrow> 0 \<le> k + RANK_VALUE r"
  using RANK_VALUE_range [of r] by simp_all

lemma fromFlush_score_pos:
  assumes "fromFlush allCards fs sh trips = Inr e" and "\<forall>v. sh = Some v \<longrightarrow> 1 \<le> v"
  shows "0 \<le> score e"
  using assms
  by (auto simp: fromFlush_def withFirst_def Let_def RANK_VALUE_nonneg
           split: option.splits list.splits if_splits)

lemma fromQuads_score_pos:
  assumes "fromQuads allCards fs sh = Inr e" and "\<forall>v. sh = Some v \<longrightarrow> 1 \<le> v"
  shows "0 \<le> score e"
  using assms fromFlush_score_pos [of allCards fs sh _ e]
  by (auto simp: fromQuads_def withFirst_def Let_def RANK_VALUE_nonneg
           split: option.splits list.splits if_splits)

lemma evaluateHand_score_pos:
  assumes "evaluateHand h c = Inr e"
  shows "0 \<le> score e"
proof -
  let ?all = "sort_key (\<lambda>c. - RANK_VALUE (rank c)) (h @ c)"
  have sh: "\<forall>v. getStraightHigh ?all = Some v \<longrightarrow> 1 \<le> v"
    using getStraightHigh_pos by blast
  show ?thesis
    using assms fromQuads_score_pos [OF _ sh, of ?all "getFlushSuit ?all" e]
    by (auto simp: evaluateHand_def Let_def split: option.splits if_splits
             dest!: getStraightHigh_pos)
qed

lemma scoreAt_nonneg:
  "evaluateHand (hand p) cc = Inr e \<Longrightarrow> 0 \<le> scoreAt cc p"
  using evaluateHand_score_pos by (simp add: scoreAt_def)

lemma pickWinner_first_max:
  assumes "pickWinner cc ps (b, w, d) = Inr (b', w', d')"
  shows "(b' = b \<and> w' = w \<and> d' = d \<and> (\<forall>p \<in> set ps. scoreAt cc p \<le> b))
       \<or> (\<exists>pre p post. ps = pre @ p # post \<and> w' = Some p \<and> b' = scoreAt cc p \<and> b < b'
             \<and> (\<forall>q \<in> set pre. scoreAt cc q < b') \<and> (\<forall>q \<in> set post. scoreAt cc q \<le> b'))"
  using assms
proof (induction ps arbitrary: b w d)
  case Nil
  then show ?case by simp
next
  case (Cons p ps)
  from Cons.prems obtain e where e: "evaluateHand (hand p) cc = Inr e"
    by (auto split: sum.splits)
  then have sp: "scoreAt cc p = score e"
    by (simp add: scoreAt_def)
  show ?case
  proof (cases "score e > b")
    case True
    then have "pickWinner cc ps (score e, Some p, rankName e) = Inr (b', w', d')"
      using Cons.prems e by simp
    from Cons.IH [OF this] show ?thesis
    proof
      assume "b' = score e \<and> w' = Some p \<and> d' = rankName e \<and> (\<forall>q \<in> set ps. scoreAt cc q \<le> score e)"
      then have "p # ps = [] @ p # ps \<and> w' = Some p \<and> b' = scoreAt cc p \<and> b < b'
             \<and> (\<forall>q \<in> set []. scoreAt cc q < b') \<and> (\<forall>q \<in> set ps. scoreAt cc q \<le> b')"
        using True sp by simp
      then show ?thesis by blast
    next
      assume "\<exists>pre q post. ps = pre @ q # post \<and> w' = Some q \<and> b' = scoreAt cc q \<and> score e < b'
             \<and> (\<forall>r \<in> set pre. scoreAt cc r < b') \<and> (\<forall>r \<in> set post. scoreAt cc r \<le> b')"
      then obtain pre q post where *: "ps = pre @ q # post" "w' = Some q" "b' = scoreAt cc q"
        "score e < b'" "\<forall>r \<in> set pre. scoreAt cc r < b'" "\<forall>r \<in> set post. scoreAt cc r \<le> b'"
        by blast
      then have "p # ps = (p # pre) @ q # post \<and> w' = Some q \<and> b' = scoreAt cc q \<and> b < b'
             \<and> (\<forall>r \<in> set (p # pre). scoreAt cc r < b') \<and> (\<forall>r \<in> set post. scoreAt cc r \<le> b')"
        using True sp by simp
      then show ?thesis by blast
    qed
  next
    case False
    then have "pickWinner cc ps (b, w, d) = Inr (b', w', d')"
      using Cons.prems e by simp
    from Cons.IH [OF this] show ?thesis
    proof
      assume "b' = b \<and> w' = w \<and> d' = d \<and> (\<forall>q \<in> set ps. scoreAt cc q \<le> b)"
      then show ?thesis using False sp by simp
    next
      assume "\<exists>pre q post. ps = pre @ q # post \<and> w' = Some q \<and> b' = scoreAt cc q \<and> b < b'
             \<and> (\<forall>r \<in> set pre. scoreAt cc r < b') \<and> (\<forall>r \<in> set post. scoreAt cc r \<le> b')"
      then obtain pre q post where *: "ps = pre @ q # post" "w' = Some q" "b' = scoreAt cc q"
        "b < b'" "\<forall>r \<in> set pre. scoreAt cc r < b'" "\<forall>r \<in> set post. scoreAt cc r \<le> b'"
        by blast
      then have "p # ps = (p # pre) @ q # post \<and> w' = Some q \<and> b' = scoreAt cc q \<and> b < b'
             \<and> (\<forall>r \<in> set (p # pre). scoreAt cc r < b') \<and> (\<forall>r \<in> set post. scoreAt cc r \<le> b')"
        using False sp by simp
      then show ?thesis by blast
    qed
  qed
qed

lemma pickWinner_evaluated:
  "pickWinner cc ps acc = Inr r \<Longrightarrow> p \<in> set ps \<Longrightarrow> \<exists>e. evaluateHand (hand p) cc = Inr e"
proof (induction ps arbitrary: acc)
  case Nil
  then show ?case by simp
next
  case (Cons q ps)
  obtain b w d where acc: "acc = (b, w, d)" by (cases acc)
  show ?case
    using Cons.prems Cons.IH unfolding acc
    by (auto split: sum.splits if_splits)
qed

lemma findIndex_distinct:
  assumes "distinct (map f (pre @ x # post))"
  shows "findIndex (\<lambda>y. f y = f x) (pre @ x # post) = Some (length pre)"
  using assms by (induction pre) auto

lemma mutate_middle: "mutate (pre @ x # post) (length pre) g = pre @ g x # post"
  by (simp add: mutate_def)

lemma filter_decompose:
  assumes "filter P xs = pre @ x # post"
  shows "\<exists>xs1 xs2. xs = xs1 @ x # xs2 \<and> filter P xs1 = pre \<and> filter P xs2 = post \<and> P x"
  using assms
proof (induction pre arbitrary: xs)
  case Nil
  then have "filter P xs = x # post" by simp
  from filter_eq_ConsD [OF this]
  obtain us vs where "xs = us @ x # vs" "\<forall>u \<in> set us. \<not> P u" "P x" "post = filter P vs"
    by blast
  then have "xs = us @ x # vs \<and> filter P us = [] \<and> filter P vs = post \<and> P x"
    by simp
  then show ?case by blast
next
  case (Cons a pre)
  then have "filter P xs = a # (pre @ x # post)" by simp
  from filter_eq_ConsD [OF this]
  obtain us vs where uv: "xs = us @ a # vs" "\<forall>u \<in> set us. \<not> P u" "P a"
      "pre @ x # post = filter P vs"
    by blast
  from Cons.IH [OF uv(4) [symmetric]]
  obtain v1 v2 where v: "vs = v1 @ x # v2" "filter P v1 = pre" "filter P v2 = post" "P x"
    by blast
  have "xs = (us @ a # v1) @ x # v2 \<and> filter P (us @ a # v1) = a # pre
      \<and> filter P v2 = post \<and> P x"
    using uv(1,2,3) v by simp
  then show ?case by blast
qed

lemma handleShowdown_pays:
  assumes "handleShowdown s = Inr s'"
    and "distinct (map player_id (players s))"
    and "\<exists>p \<in> set (players s). contender p"
  shows "\<exists>pre w post.
           players s = pre @ w # post
         \<and> players s' = pre @ w\<lparr>chips := chips w + pot s\<rparr> # post
         \<and> contender w
         \<and> (\<forall>q \<in> set pre. contender q \<longrightarrow> scoreAt (communityCards s) q < scoreAt (communityCards s) w)
         \<and> (\<forall>q \<in> set post. contender q \<longrightarrow> scoreAt (communityCards s) q \<le> scoreAt (communityCards s) w)"
proof -
  let ?cc = "communityCards s"
  let ?act = "filter (\<lambda>p. status p \<noteq> Folded \<and> status p \<noteq> Busted) (players s)"
  have act: "?act \<noteq> []"
    using assms(3) by (auto simp: filter_empty_conv contender_def)
  then obtain b' w' d' where pick: "pickWinner ?cc ?act (- 1, None, []) = Inr (b', w', d')"
    using assms(1) by (auto simp: handleShowdown_def Let_def split: sum.splits)
  obtain p0 where p0: "p0 \<in> set ?act" using act by (cases ?act) auto
  then obtain e0 where "evaluateHand (hand p0) ?cc = Inr e0"
    using pickWinner_evaluated [OF pick] by blast
  then have "\<not> scoreAt ?cc p0 \<le> - 1"
    using scoreAt_nonneg [of p0 ?cc e0] by simp
  then have "\<not> (\<forall>p \<in> set ?act. scoreAt ?cc p \<le> - 1)"
    using p0 by blast
  with pickWinner_first_max [OF pick]
  obtain pre0 w post0 where dec: "?act = pre0 @ w # post0" "w' = Some w" "b' = scoreAt ?cc w"
      "\<forall>q \<in> set pre0. scoreAt ?cc q < b'" "\<forall>q \<in> set post0. scoreAt ?cc q \<le> b'"
    by blast
  from filter_decompose [OF dec(1)]
  obtain pre post where split: "players s = pre @ w # post"
      "filter (\<lambda>p. status p \<noteq> Folded \<and> status p \<noteq> Busted) pre = pre0"
      "filter (\<lambda>p. status p \<noteq> Folded \<and> status p \<noteq> Busted) post = post0"
      "status w \<noteq> Folded \<and> status w \<noteq> Busted"
    by blast
  have idx: "findIndex (\<lambda>p. player_id p = player_id w) (players s) = Some (length pre)"
    using assms(2) unfolding split(1) by (rule findIndex_distinct)
  have "players s' = mutate (players s) (length pre) (\<lambda>p. p\<lparr>chips := chips p + pot s\<rparr>)"
    using assms(1) act pick dec(2) idx by (auto simp: handleShowdown_def Let_def addLog_def)
  then have paid: "players s' = pre @ w\<lparr>chips := chips w + pot s\<rparr> # post"
    unfolding split(1) by (simp add: mutate_middle)
  have before: "\<forall>q \<in> set pre. contender q \<longrightarrow> scoreAt ?cc q < scoreAt ?cc w"
    using dec(3,4) split(2) by (auto simp: contender_def)
  have after: "\<forall>q \<in> set post. contender q \<longrightarrow> scoreAt ?cc q \<le> scoreAt ?cc w"
    using dec(3,5) split(3) by (auto simp: contender_def)
  show ?thesis
    using split(1,4) paid before after by (auto simp: contender_def)
qed

text \<open>
  C4 (amended). At showdown the pot is not split. When some player is neither Folded
  nor Busted (and the player ids are distinct), \<^verbatim>\<open>handleShowdown\<close> adds the whole pot
  to the chips of exactly one player: the first, in the order of the list, of the
  non-Folded, non-Busted players with the maximal score. Every player before that
  one has a strictly smaller score, every player after it a score that is at most
  equal, and nobody else's chips change, also not those of players sharing the
  maximum.
\<close>

theorem showdown_pays_single_winner:
  assumes "handleShowdown s = Inr s'"
    and "distinct (map player_id (players s))"
    and "\<exists>p \<in> set (players s). contender p"
  shows "\<exists>pre w post.
           players s = pre @ w # post
         \<and> players s' = pre @ w\<lparr>chips := chips w + pot s\<rparr> # post
         \<and> contender w
         \<and> (\<forall>q \<in> set pre. contender q \<longrightarrow> scoreAt (communityCards s) q < scoreAt (communityCards s) w)
         \<and> (\<forall>q \<in> set post. contender q \<longrightarrow> scoreAt (communityCards s) q \<le> scoreAt (communityCards s) w)"
  using assms by (rule handleShowdown_pays)

theorem showdown_pays_single_winner_witness:
  "handleShowdown (mkTable River
         [mkPlayer ''A'' 500 0 Active [mkCard Two Hearts, mkCard Three Diamonds],
          mkPlayer ''B'' 500 0 Active [mkCard Two Diamonds, mkCard Three Clubs]] []
         [mkCard Ace Spades, mkCard King Hearts, mkCard Queen Diamonds, mkCard Jack Clubs,
           mkCard Ten Spades] 101 0 0) = Inr ((mkTable Showdown
         [mkPlayer ''A'' 601 0 Active [mkCard Two Hearts, mkCard Three Diamonds],
          mkPlayer ''B'' 500 0 Active [mkCard Two Diamonds, mkCard Three Clubs]] []
         [mkCard Ace Spades, mkCard King Hearts, mkCard Queen Diamonds, mkCard Jack Clubs,
           mkCard Ten Spades] 101 0 0)
         \<lparr>winnerIdx := Some 0,
          gameLogs := [\<lparr>message = ''A wins 101 chips with Straight!'', log_type = LogWinner\<rparr>,
                       \<lparr>message = ''Gemini is analyzing...'', log_type = LogInfo\<rparr>],
          autoNextTimer := Some 8\<rparr>)
   \<and> distinct (map player_id (players (mkTable River
         [mkPlayer ''A'' 500 0 Active [mkCard Two Hearts, mkCard Three Diamonds],
          mkPlayer ''B'' 500 0 Active [mkCard Two Diamonds, mkCard Three Clubs]] []
         [mkCard Ace Spades, mkCard King Hearts, mkCard Queen Diamonds, mkCard Jack Clubs,
           mkCard Ten Spades] 101 0 0)))
   \<and> contender (mkPlayer ''A'' 500 0 Active [mkCard Two Hearts, mkCard Three Diamonds])
   \<and> (\<exists>pre w post.
           players (mkTable River
         [mkPlayer ''A'' 500 0 Active [mkCard Two Hearts, mkCard Three Diamonds],
          mkPlayer ''B'' 500 0 Active [mkCard Two Diamonds, mkCard Three Clubs]] []
         [mkCard Ace Spades, mkCard King Hearts, mkCard Queen Diamonds, mkCard Jack Clubs,
           mkCard Ten Spades] 101 0 0) = pre @ w # post
         \<and> players ((mkTable Showdown
         [mkPlayer ''A'' 601 0 Active [mkCard Two Hearts, mkCard Three Diamonds],
          mkPlayer ''B'' 500 0 Active [mkCard Two Diamonds, mkCard Three Clubs]] []
         [mkCard Ace Spades, mkCard King Hearts, mkCard Queen Diamonds, mkCard Jack Clubs,
           mkCard Ten Spades] 101 0 0)
         \<lparr>winnerIdx := Some 0,
          gameLogs := [\<lparr>message = ''A wins 101 chips with Straight!'', log_type = LogWinner\<rparr>,
                       \<lparr>message = ''Gemini is analyzing...'', log_type = LogInfo\<rparr>],
          autoNextTimer := Some 8\<rparr>) = pre @ w\<lparr>chips := chips w + pot (mkTable River
         [mkPlayer ''A'' 500 0 Active [mkCard Two Hearts, mkCard Three Diamonds],
          mkPlayer ''B'' 500 0 Active [mkCard Two Diamonds, mkCard Three Clubs]] []
         [mkCard Ace Spades, mkCard King Hearts, mkCard Queen Diamonds, mkCard Jack Clubs,
           mkCard Ten Spades] 101 0 0)\<rparr> # post
         \<and> contender w)"
proof -
  have run: "handleShowdown (mkTable River
         [mkPlayer ''A'' 500 0 Active [mkCard Two Hearts, mkCard Three Diamonds],
          mkPlayer ''B'' 500 0 Active [mkCard Two Diamonds, mkCard Three Clubs]] []
         [mkCard Ace Spades, mkCard King Hearts, mkCard Queen Diamonds, mkCard Jack Clubs,
           mkCard Ten Spades] 101 0 0) = Inr ((mkTable Showdown
         [mkPlayer ''A'' 601 0 Active [mkCard Two Hearts, mkCard Three Diamonds],
          mkPlayer ''B'' 500 0 Active [mkCard Two Diamonds, mkCard Three Clubs]] []
         [mkCard Ace Spades, mkCard King Hearts, mkCard Queen Diamonds, mkCard Jack Clubs,
           mkCard Ten Spades] 101 0 0)
         \<lparr>winnerIdx := Some 0,
          gameLogs := [\<lparr>message = ''A wins 101 chips with Straight!'', log_type = LogWinner\<rparr>,
                       \<lparr>message = ''Gemini is analyzing...'', log_type = LogInfo\<rparr>],
          autoNextTimer := Some 8\<rparr>)"
    by code_simp
  have ids: "distinct (map player_id (players (mkTable River
         [mkPlayer ''A'' 500 0 Active [mkCard Two Hearts, mkCard Three Diamonds],
          mkPlayer ''B'' 500 0 Active [mkCard Two Diamonds, mkCard Three Clubs]] []
         [mkCard Ace Spades, mkCard King Hearts, mkCard Queen Diamonds, mkCard Jack Clubs,
           mkCard Ten Spades] 101 0 0)))"
    by simp
  have c: "contender (mkPlayer ''A'' 500 0 Active [mkCard Two Hearts, mkCard Three Diamonds])"
    by (simp add: contender_def)
  then have ex: "\<exists>p \<in> set (players (mkTable River
         [mkPlayer ''A'' 500 0 Active [mkCard Two Hearts, mkCard Three Diamonds],
          mkPlayer ''B'' 500 0 Active [mkCard Two Diamonds, mkCard Three Clubs]] []
         [mkCard Ace Spades, mkCard King Hearts, mkCard Queen Diamonds, mkCard Jack Clubs,
           mkCard Ten Spades] 101 0 0)). contender p"
    by simp
  show ?thesis
    using showdown_pays_single_winner [OF run ids ex] run ids c by blast
qed

text \<open>
  C4 as stated fails: two players whose best hand is the straight on the board
  (the same key 414, the same five cards) meet at showdown with a pot of 101. The
  first gets all 101 chips, the second none.
\<close>

theorem tie_is_not_split:
  "evaluateHand [mkCard Two Hearts, mkCard Three Diamonds] [mkCard Ace Spades, mkCard King Hearts, mkCard Queen Diamonds, mkCard Jack Clubs,
           mkCard Ten Spades]
     = Inr \<lparr>score = 414, rankName = ''Straight'',
            bestFive = [Some (mkCard Ace Spades), Some (mkCard King Hearts),
              Some (mkCard Queen Diamonds), Some (mkCard Jack Clubs), Some (mkCard Ten Spades)]\<rparr>
   \<and> evaluateHand [mkCard Two Diamonds, mkCard Three Clubs] [mkCard Ace Spades, mkCard King Hearts, mkCard Queen Diamonds, mkCard Jack Clubs,
           mkCard Ten Spades]
     = Inr \<lparr>score = 414, rankName = ''Straight'',
            bestFive = [Some (mkCard Ace Spades), Some (mkCard King Hearts),
              Some (mkCard Queen Diamonds), Some (mkCard Jack Clubs), Some (mkCard Ten Spades)]\<rparr>
   \<and> handleShowdown (mkTable River
         [mkPlayer ''A'' 500 0 Active [mkCard Two Hearts, mkCard Three Diamonds],
          mkPlayer ''B'' 500 0 Active [mkCard Two Diamonds, mkCard Three Clubs]] []
         [mkCard Ace Spades, mkCard King Hearts, mkCard Queen Diamonds, mkCard Jack Clubs,
           mkCard Ten Spades] 101 0 0) = Inr ((mkTable Showdown
         [mkPlayer ''A'' 601 0 Active [mkCard Two Hearts, mkCard Three Diamonds],
          mkPlayer ''B'' 500 0 Active [mkCard Two Diamonds, mkCard Three Clubs]] []
         [mkCard Ace Spades, mkCard King Hearts, mkCard Queen Diamonds, mkCard Jack Clubs,
           mkCard Ten Spades] 101 0 0)
         \<lparr>winnerIdx := Some 0,
          gameLogs := [\<lparr>message = ''A wins 101 chips with Straight!'', log_type = LogWinner\<rparr>,
                       \<lparr>message = ''Gemini is analyzing...'', log_type = LogInfo\<rparr>],
          autoNextTimer := Some 8\<rparr>)"
  by code_simp

subsection \<open>Chip conservation\<close>

lemma contender_bet [simp]: "contender (p\<lparr>bet := b\<rparr>) = contender p"
  by (simp add: contender_def)

lemma runPending_pays:
  assumes "runPending c s = Inr s'" and "phase s' = Showdown"
    and "distinct (map player_id (players s))" and "\<exists>p \<in> set (players s). contender p"
  shows "sum_list (map chips (players s')) = sum_list (map chips (players s)) + seenPot c"
proof -
  let ?v = "s\<lparr>phase := seenPhase c, deck := seenDeck c,
               communityCards := seenCommunityCards c, pot := seenPot c,
               dealerIdx := seenDealerIdx c\<rparr>"
  let ?new = "map (\<lambda>p. p\<lparr>bet := 0\<rparr>) (players s)"
  let ?s1 = "?v\<lparr>players := map (\<lambda>p. p\<lparr>bet := 0\<rparr>) (players ?v), currentBet := 0,
           activePlayerIdx := scanFrom (\<lambda>p. status p \<noteq> Active \<and> status p \<noteq> AllIn)
             (map (\<lambda>p. p\<lparr>bet := 0\<rparr>) (players ?v))
             ((dealerIdx ?v + 1) mod length (map (\<lambda>p. p\<lparr>bet := 0\<rparr>) (players ?v))) 0\<rparr>"
  from assms(1) obtain r where r: "nextPhase ?v = Inr r" and pl: "players s' = players r"
      and ph: "phase s' = phase r"
    by (auto simp: runPending_def split: sum.splits if_splits)
  have late: "\<not> (phase ?v = PreFlop \<or> phase ?v = Flop \<or> phase ?v = Turn)"
    using nextPhase_deals [OF r] ph assms(2) by auto
  have shown: "handleShowdown ?s1 = Inr r"
    using r late by (rule nextPhase_shows)
  have ids: "distinct (map player_id (players ?s1))"
    using assms(3) by (simp add: comp_def)
  have some: "\<exists>p \<in> set (players ?s1). contender p"
    using assms(4) by simp
  from handleShowdown_pays [OF shown ids some]
  obtain pre w post where "players ?s1 = pre @ w # post"
      "players r = pre @ w\<lparr>chips := chips w + pot ?s1\<rparr> # post"
    by blast
  then have "sum_list (map chips (players r)) = sum_list (map chips (players ?s1)) + pot ?s1"
    by simp
  then show ?thesis
    using pl by simp
qed

text \<open>
  C1 (amended). The pot already contains the bets of the current street (every
  blind, call and raise is added to the pot at once), so the conserved quantity is
  \<open>pot + sum of the chips\<close>, without the bets:
  \<^item> a hand that starts has \<open>pot + chips\<close> equal to the chips of the players with a
    positive stack that came in (blind posting);
  \<^item> every sequence of folds, checks/calls, raises and street advances during which
    the hand goes on (the phase is not Showdown after any of them) leaves
    \<open>pot + chips\<close> unchanged;
  \<^item> a street advance that ends in the showdown, run by a callback whose render had
    the pot that is on the table now (the action that scheduled it was a check or a
    fold), moves the pot into one stack: the chips after it are the chips plus the
    pot before it.
  Not covered are the payout of a fold that leaves one player and the showdown
  reached through a callback that was scheduled by a call or a raise.
\<close>

theorem pot_plus_chips_constant:
  "(startNewHand rnd mkId newDealerIdx currentPlayers t = Inr t' \<longrightarrow> phase t' = PreFlop \<longrightarrow>
      bank t' = sum_list (map chips (filter (\<lambda>p. 0 < chips p) currentPlayers)))
   \<and> (handGoesOn es s \<longrightarrow> run es s = Inr s' \<longrightarrow> bank s' = bank s)
   \<and> (k < length (timeouts u) \<longrightarrow> applyEvent (NextPhaseE k) u = Inr u' \<longrightarrow>
        phase u' = Showdown \<longrightarrow> seenPot (timeouts u ! k) = pot u \<longrightarrow>
        distinct (map player_id (players u)) \<longrightarrow> (\<exists>p \<in> set (players u). contender p) \<longrightarrow>
        sum_list (map chips (players u')) = bank u)"
proof (intro conjI impI)
  assume "startNewHand rnd mkId newDealerIdx currentPlayers t = Inr t'" and "phase t' = PreFlop"
  then show "bank t' = sum_list (map chips (filter (\<lambda>p. 0 < chips p) currentPlayers))"
    by (rule startNewHand_bank)
next
  assume "handGoesOn es s" and "run es s = Inr s'"
  then show "bank s' = bank s"
    by (rule run_bank)
next
  let ?rest = "u\<lparr>timeouts := take k (timeouts u) @ drop (Suc k) (timeouts u)\<rparr>"
  assume k: "k < length (timeouts u)" and ev: "applyEvent (NextPhaseE k) u = Inr u'"
    and ph: "phase u' = Showdown" and same: "seenPot (timeouts u ! k) = pot u"
    and ids: "distinct (map player_id (players u))"
    and some: "\<exists>p \<in> set (players u). contender p"
  have "runPending (timeouts u ! k) ?rest = Inr u'"
    using k ev by simp
  from runPending_pays [OF this ph] ids some same
  show "sum_list (map chips (players u')) = bank u"
    by simp
qed

theorem pot_plus_chips_constant_witness:
  "\<not> isl (startNewHand (\<lambda>k. 0) (\<lambda>r s. []) 0
        [mkPlayer ''A'' 1000 0 Active [], mkPlayer ''B'' 1000 0 Active []]
        (mkTable Setup [] [] [] 0 0 0))
   \<and> phase (projr (startNewHand (\<lambda>k. 0) (\<lambda>r s. []) 0
        [mkPlayer ''A'' 1000 0 Active [], mkPlayer ''B'' 1000 0 Active []]
        (mkTable Setup [] [] [] 0 0 0))) = PreFlop
   \<and> bank (projr (startNewHand (\<lambda>k. 0) (\<lambda>r s. []) 0
        [mkPlayer ''A'' 1000 0 Active [], mkPlayer ''B'' 1000 0 Active []]
        (mkTable Setup [] [] [] 0 0 0))) = 2000
   \<and> handGoesOn [CheckCallE, NextPhaseE 0] preflopExample
   \<and> run [CheckCallE, NextPhaseE 0] preflopExample = Inr flopExample
   \<and> bank flopExample = bank preflopExample
   \<and> 0 < length (timeouts riverChecked)
   \<and> applyEvent (NextPhaseE 0) riverChecked = Inr riverPaid
   \<and> phase riverPaid = Showdown
   \<and> seenPot (timeouts riverChecked ! 0) = pot riverChecked
   \<and> distinct (map player_id (players riverChecked))
   \<and> contender (players riverChecked ! 0)
   \<and> sum_list (map chips (players riverPaid)) = bank riverChecked"
proof -
  let ?start = "startNewHand (\<lambda>k. 0) (\<lambda>r s. []) 0
        [mkPlayer ''A'' 1000 0 Active [], mkPlayer ''B'' 1000 0 Active []]
        (mkTable Setup [] [] [] 0 0 0)"
  have ok: "\<not> isl ?start"
    by code_simp
  then have h1: "?start = Inr (projr ?start)"
    by simp
  have h2: "phase (projr ?start) = PreFlop"
    by code_simp
  have g: "handGoesOn [CheckCallE, NextPhaseE 0] preflopExample"
    by code_simp
  have r: "run [CheckCallE, NextPhaseE 0] preflopExample = Inr flopExample"
    by code_simp
  have k: "0 < length (timeouts riverChecked)"
    by (simp add: riverChecked_def)
  have ev: "applyEvent (NextPhaseE 0) riverChecked = Inr riverPaid"
    by code_simp
  have ph: "phase riverPaid = Showdown"
    by (simp add: riverPaid_def)
  have same: "seenPot (timeouts riverChecked ! 0) = pot riverChecked"
    by (simp add: riverChecked_def riverExample_def)
  have ids: "distinct (map player_id (players riverChecked))"
    by (simp add: riverChecked_def riverExample_def)
  have c: "contender (players riverChecked ! 0)"
    by (simp add: riverChecked_def riverExample_def contender_def)
  have "players riverChecked ! 0 \<in> set (players riverChecked)"
    by (simp add: riverChecked_def riverExample_def)
  with c have some: "\<exists>p \<in> set (players riverChecked). contender p"
    by blast
  note all = pot_plus_chips_constant [of "\<lambda>k. 0" "\<lambda>r s. []" 0
      "[mkPlayer ''A'' 1000 0 Active [], mkPlayer ''B'' 1000 0 Active []]"
      "mkTable Setup [] [] [] 0 0 0" "projr ?start"
      "[CheckCallE, NextPhaseE 0]" preflopExample flopExample
      0 riverChecked riverPaid]
  have a: "bank (projr ?start) = 2000"
    using all h1 h2 by simp
  have b: "bank flopExample = bank preflopExample"
    using all g r by blast
  have d: "sum_list (map chips (players riverPaid)) = bank riverChecked"
    using all k ev ph same ids some by blast
  show ?thesis
    using ok h2 a g r b k ev ph same ids c d by blast
qed

text \<open>
  C1 as stated fails: the quantity with the bets is not constant. Heads-up after the
  blinds \<open>pot + chips + bets\<close> is 30 + 1970 + 30 = 2030; the small blind calls 10
  and it is 40 + 1960 + 40 = 2040.
\<close>

theorem call_changes_pot_chips_bets:
  "pot (mkTable PreFlop [mkPlayer ''A'' 980 20 Active [], mkPlayer ''B'' 990 10 Active []] [] [] 30 20 1) + sum_list (map chips (players (mkTable PreFlop [mkPlayer ''A'' 980 20 Active [], mkPlayer ''B'' 990 10 Active []] [] [] 30 20 1))) + sum_list (map bet (players (mkTable PreFlop [mkPlayer ''A'' 980 20 Active [], mkPlayer ''B'' 990 10 Active []] [] [] 30 20 1))) = 2030
   \<and> handleCheckCall (mkTable PreFlop [mkPlayer ''A'' 980 20 Active [], mkPlayer ''B'' 990 10 Active []] [] [] 30 20 1) = Inr ((mkTable PreFlop [mkPlayer ''A'' 980 20 Active [], mkPlayer ''B'' 980 20 Active []] [] [] 40 20 1)
         \<lparr>gameLogs := [\<lparr>message = ''B calls.'', log_type = LogAction\<rparr>], timeouts := [\<lparr>delay = 500, seenPhase = PreFlop, seenDeck = [], seenCommunityCards = [], seenPot = 30, seenDealerIdx = 0\<rparr>]\<rparr>)
   \<and> pot ((mkTable PreFlop [mkPlayer ''A'' 980 20 Active [], mkPlayer ''B'' 980 20 Active []] [] [] 40 20 1)
         \<lparr>gameLogs := [\<lparr>message = ''B calls.'', log_type = LogAction\<rparr>], timeouts := [\<lparr>delay = 500, seenPhase = PreFlop, seenDeck = [], seenCommunityCards = [], seenPot = 30, seenDealerIdx = 0\<rparr>]\<rparr>) + sum_list (map chips (players ((mkTable PreFlop [mkPlayer ''A'' 980 20 Active [], mkPlayer ''B'' 980 20 Active []] [] [] 40 20 1)
         \<lparr>gameLogs := [\<lparr>message = ''B calls.'', log_type = LogAction\<rparr>], timeouts := [\<lparr>delay = 500, seenPhase = PreFlop, seenDeck = [], seenCommunityCards = [], seenPot = 30, seenDealerIdx = 0\<rparr>]\<rparr>))) + sum_list (map bet (players ((mkTable PreFlop [mkPlayer ''A'' 980 20 Active [], mkPlayer ''B'' 980 20 Active []] [] [] 40 20 1)
         \<lparr>gameLogs := [\<lparr>message = ''B calls.'', log_type = LogAction\<rparr>], timeouts := [\<lparr>delay = 500, seenPhase = PreFlop, seenDeck = [], seenCommunityCards = [], seenPot = 30, seenDealerIdx = 0\<rparr>]\<rparr>))) = 2040"
  by code_simp

text \<open>
  The payout of a fold that ends the hand is \<^verbatim>\<open>pot + newPlayers.reduce(... p.bet ...)\<close>:
  it adds the bets of the street to a pot that holds them already. Heads-up after
  the blinds (2000 chips in play) the small blind folds, and the stacks are 1040 and
  990.
\<close>

lemma fold_win_counts_bets_twice:
  "bank (mkTable PreFlop [mkPlayer ''A'' 980 20 Active [], mkPlayer ''B'' 990 10 Active []] [] [] 30 20 1) = 2000
   \<and> \<not> isl (handleFold (mkTable PreFlop [mkPlayer ''A'' 980 20 Active [], mkPlayer ''B'' 990 10 Active []] [] [] 30 20 1))
   \<and> pot (projr (handleFold (mkTable PreFlop [mkPlayer ''A'' 980 20 Active [], mkPlayer ''B'' 990 10 Active []] [] [] 30 20 1))) = 0
   \<and> map chips (players (projr (handleFold (mkTable PreFlop [mkPlayer ''A'' 980 20 Active [], mkPlayer ''B'' 990 10 Active []] [] [] 30 20 1)))) = [1040, 990]"
  by code_simp

text \<open>
  The showdown reached through a callback that a call or a raise scheduled pays
  the pot of the render in which the action ran, which does not hold the chips of
  that action yet. On the river A has bet 50 (1050 chips in play), B calls and the
  callback runs: the pot on the table is 150, A is paid 100 and the stacks are 550
  and 450.
\<close>

lemma showdown_after_call_pays_old_pot:
  "bank riverBet = 1050
   \<and> \<not> isl (run [CheckCallE, NextPhaseE 0] riverBet)
   \<and> phase (projr (run [CheckCallE, NextPhaseE 0] riverBet)) = Showdown
   \<and> pot (projr (run [CheckCallE, NextPhaseE 0] riverBet)) = 150
   \<and> map chips (players (projr (run [CheckCallE, NextPhaseE 0] riverBet))) = [550, 450]"
  by code_simp

text \<open>
  Two callbacks scheduled before the flop both read the phase and the deck of
  their render: B calls and then checks before the first callback runs, both run,
  and the table is on the flop with the same three cards, not on the turn.
\<close>

lemma two_callbacks_deal_one_flop:
  "\<not> isl (run [CheckCallE, CheckCallE, NextPhaseE 0, NextPhaseE 0] preflopExample)
   \<and> phase (projr (run [CheckCallE, CheckCallE, NextPhaseE 0, NextPhaseE 0] preflopExample))
       = Flop
   \<and> communityCards (projr (run [CheckCallE, CheckCallE, NextPhaseE 0, NextPhaseE 0] preflopExample))
       = [mkCard King Diamonds, mkCard Nine Spades, mkCard Four Hearts]
   \<and> deck (projr (run [CheckCallE, CheckCallE, NextPhaseE 0, NextPhaseE 0] preflopExample))
       = [mkCard Two Clubs, mkCard Three Clubs]
   \<and> timeouts (projr (run [CheckCallE, CheckCallE, NextPhaseE 0, NextPhaseE 0] preflopExample))
       = []"
  by code_simp

text \<open>
  The table \<open>riverChecked\<close> is the one a check leads to.
\<close>

lemma riverChecked_reached: "handleCheckCall riverExample = Inr riverChecked"
  by code_simp

subsection \<open>Turn advancement\<close>

lemma scanFrom_stops:
  assumes "idx < length ps" and "d + cnt \<le> length ps"
    and "\<not> skip (ps ! ((idx + d) mod length ps))"
  shows "\<not> skip (ps ! scanFrom skip ps idx cnt) \<and> scanFrom skip ps idx cnt < length ps"
  using assms
proof (induction skip ps idx cnt arbitrary: d rule: scanFrom.induct)
  case (1 skip ps idx cnt)
  let ?n = "length ps"
  show ?case
  proof (cases "skip (ps ! idx) \<and> cnt < ?n")
    case True
    have "d \<noteq> 0"
      using True "1.prems"(1,3) by (cases d) auto
    then obtain d' where d: "d = Suc d'" by (cases d) auto
    have step: "((idx + 1) mod ?n + d') mod ?n = (idx + d) mod ?n"
      unfolding d by (simp add: mod_add_left_eq)
    have "0 < ?n" using "1.prems"(1) by linarith
    then have nxt: "(idx + 1) mod ?n < ?n" by (rule mod_less_divisor)
    have "\<not> skip (ps ! scanFrom skip ps ((idx + 1) mod ?n) (cnt + 1))
        \<and> scanFrom skip ps ((idx + 1) mod ?n) (cnt + 1) < ?n"
      using True "1.prems"(2,3) d step nxt by (intro "1.IH" [of d']) simp_all
    then show ?thesis
      using True by (simp add: scanFrom.simps [of skip ps idx cnt])
  next
    case False
    have "\<not> skip (ps ! idx)"
    proof (cases "cnt < ?n")
      case True
      with False show ?thesis by simp
    next
      case False
      then have "d = 0" using "1.prems"(2) by simp
      then show ?thesis using "1.prems"(1,3) by simp
    qed
    then show ?thesis
      using False "1.prems"(1) by (simp add: scanFrom.simps [of skip ps idx cnt])
  qed
qed

lemma scanFrom_good:
  assumes "idx < length ps" and "j < length ps" and "\<not> skip (ps ! j)"
  shows "\<not> skip (ps ! scanFrom skip ps idx 0) \<and> scanFrom skip ps idx 0 < length ps"
proof -
  let ?n = "length ps"
  let ?d = "(j + ?n - idx) mod ?n"
  have "(idx + ?d) mod ?n = (idx + (j + ?n - idx)) mod ?n"
    by (simp add: mod_add_right_eq)
  also have "\<dots> = (j + ?n) mod ?n"
    using assms(1) by simp
  also have "\<dots> = j"
    using assms(2) by simp
  finally have "\<not> skip (ps ! ((idx + ?d) mod ?n))"
    using assms(3) by simp
  moreover have "?d < ?n"
    using assms(2) by (intro mod_less_divisor) linarith
  then have "?d + 0 \<le> ?n"
    by simp
  ultimately show ?thesis
    using assms(1) by (intro scanFrom_stops)
qed

lemma scanFrom_first:
  assumes "idx < length ps" and "d + cnt \<le> length ps"
    and "\<not> skip (ps ! ((idx + d) mod length ps))"
    and "\<forall>d' < d. skip (ps ! ((idx + d') mod length ps))"
  shows "scanFrom skip ps idx cnt = (idx + d) mod length ps"
  using assms
proof (induction d arbitrary: idx cnt)
  case 0
  then show ?case by (simp add: scanFrom.simps [of skip ps idx cnt])
next
  case (Suc d)
  let ?n = "length ps"
  have "skip (ps ! ((idx + 0) mod ?n))"
    using Suc.prems(4) by blast
  then have here: "skip (ps ! idx)"
    using Suc.prems(1) by simp
  have cnt: "cnt < ?n"
    using Suc.prems(2) by simp
  have "0 < ?n" using Suc.prems(1) by linarith
  then have nxt: "(idx + 1) mod ?n < ?n" by (rule mod_less_divisor)
  have step: "((idx + 1) mod ?n + k) mod ?n = (idx + Suc k) mod ?n" for k
    by (simp add: mod_add_left_eq)
  have "scanFrom skip ps ((idx + 1) mod ?n) (cnt + 1) = ((idx + 1) mod ?n + d) mod ?n"
  proof (rule Suc.IH [OF nxt])
    show "d + (cnt + 1) \<le> ?n"
      using Suc.prems(2) by simp
    show "\<not> skip (ps ! (((idx + 1) mod ?n + d) mod ?n))"
      unfolding step by (rule Suc.prems(3))
    show "\<forall>d' < d. skip (ps ! (((idx + 1) mod ?n + d') mod ?n))"
      unfolding step using Suc.prems(4) by auto
  qed
  then have "scanFrom skip ps ((idx + 1) mod ?n) (cnt + 1) = (idx + Suc d) mod ?n"
    unfolding step .
  then show ?case
    using here cnt by (simp add: scanFrom.simps [of skip ps idx cnt])
qed

lemma scanFrom_firstFrom:
  assumes "idx < length ps" and "j < length ps" and "\<not> skip (ps ! j)"
  shows "firstFrom (\<lambda>p. \<not> skip p) ps idx (scanFrom skip ps idx 0)"
proof -
  let ?n = "length ps"
  let ?P = "\<lambda>d. \<not> skip (ps ! ((idx + d) mod ?n))"
  let ?d0 = "(j + ?n - idx) mod ?n"
  have "(idx + ?d0) mod ?n = (idx + (j + ?n - idx)) mod ?n"
    by (simp add: mod_add_right_eq)
  also have "\<dots> = (j + ?n) mod ?n"
    using assms(1) by simp
  also have "\<dots> = j"
    using assms(2) by simp
  finally have P0: "?P ?d0"
    using assms(3) by simp
  define d where "d = (LEAST d. ?P d)"
  have Pd: "?P d"
    unfolding d_def using P0 by (rule LeastI)
  have "d \<le> ?d0"
    unfolding d_def using P0 by (rule Least_le)
  moreover have "?d0 < ?n"
    using assms(2) by (intro mod_less_divisor) linarith
  ultimately have dn: "d < ?n"
    by simp
  have least: "\<forall>d' < d. skip (ps ! ((idx + d') mod ?n))"
    unfolding d_def using not_less_Least by blast
  have "scanFrom skip ps idx 0 = (idx + d) mod ?n"
    using assms(1) dn Pd least by (intro scanFrom_first) simp_all
  then show ?thesis
    unfolding firstFrom_def using dn Pd least by auto
qed

lemma firstFrom_mod:
  "firstFrom ok ps (start mod length ps) i = firstFrom ok ps start i"
  by (simp add: firstFrom_def mod_add_left_eq)

lemma firstFromD:
  assumes "firstFrom ok ps start i"
  shows "i < length ps \<and> ok (ps ! i)"
proof -
  from assms obtain d where d: "d < length ps" "i = (start + d) mod length ps" "ok (ps ! i)"
    by (auto simp: firstFrom_def)
  then have "0 < length ps" by linarith
  then have "(start + d) mod length ps < length ps" by (rule mod_less_divisor)
  then show ?thesis using d by simp
qed

lemma firstFrom_status:
  assumes "map status ps = map status qs"
  shows "firstFrom (\<lambda>p. Q (status p)) ps start i = firstFrom (\<lambda>p. Q (status p)) qs start i"
proof -
  have len: "length ps = length qs"
    using assms by (rule map_eq_imp_length_eq)
  have st: "status (ps ! j) = status (qs ! j)" if "j < length qs" for j
    using assms that len by (metis nth_map)
  have pos: "(start + d) mod length qs < length qs" if "d < length qs" for d
  proof -
    from that have "0 < length qs" by linarith
    then show ?thesis by (rule mod_less_divisor)
  qed
  show ?thesis
    unfolding firstFrom_def len
  proof (intro bex_cong refl conj_cong ball_cong)
    fix d assume d: "d \<in> set [0..<length qs]" and "i = (start + d) mod length qs"
    then show "Q (status (ps ! i)) = Q (status (qs ! i))"
      using st pos by simp
  next
    fix d d' assume d: "d \<in> set [0..<length qs]" and d': "d' \<in> set [0..<d]"
    then have "d' < length qs" by simp
    then show "(\<not> Q (status (ps ! ((start + d') mod length qs))))
             = (\<not> Q (status (qs ! ((start + d') mod length qs))))"
      using st pos by simp
  qed
qed

lemma status_cases: "status p = Active \<or> status p = Folded \<or> status p = AllIn \<or> status p = Busted"
  by (cases "status p") simp_all

lemma moveToNextPlayer_turn:
  assumes "moveToNextPlayer s = Inr s'"
  shows "activePlayerIdx s' = activePlayerIdx s
       \<or> firstFrom (\<lambda>p. status p = Active) (players s') (activePlayerIdx s + 1)
            (activePlayerIdx s')"
proof (cases "activePlayerIdx s' = activePlayerIdx s")
  case True
  then show ?thesis by simp
next
  case False
  let ?skip = "\<lambda>p. status p = Folded \<or> status p = Busted \<or> status p = AllIn"
  let ?n = "length (players s)"
  let ?next = "scanFrom ?skip (players s) ((activePlayerIdx s + 1) mod ?n) 0"
  have ne: "players s \<noteq> []"
    using assms by (auto simp: moveToNextPlayer_def split: if_splits)
  have set: "activePlayerIdx s' = ?next" and act: "filter (\<lambda>p. status p = Active) (players s) \<noteq> []"
    using assms False by (auto simp: moveToNextPlayer_def Let_def schedule_def split: if_splits)
  from act obtain p where "p \<in> set (players s)" "status p = Active"
    by (auto simp: filter_empty_conv)
  then obtain j where j: "j < ?n" "status (players s ! j) = Active"
    by (auto simp: in_set_conv_nth)
  have "(activePlayerIdx s + 1) mod ?n < ?n"
    using ne by simp
  moreover have "\<not> ?skip (players s ! j)"
    using j(2) by simp
  ultimately
  have "firstFrom (\<lambda>p. \<not> ?skip p) (players s) ((activePlayerIdx s + 1) mod ?n) ?next"
    using j(1) by (intro scanFrom_firstFrom)
  then have f: "firstFrom (\<lambda>p. \<not> ?skip p) (players s) (activePlayerIdx s + 1) ?next"
    by (simp only: firstFrom_mod)
  have eq: "(\<lambda>p. \<not> ?skip p) = (\<lambda>p. status p = Active)"
    using status_cases by (intro ext) auto
  have "firstFrom (\<lambda>p. status p = Active) (players s) (activePlayerIdx s + 1) ?next"
    using f unfolding eq .
  moreover have "players s' = players s"
    using assms by (simp add: moveToNextPlayer_same)
  ultimately show ?thesis
    using set by simp
qed

lemma moveToNextPlayer_turnOk:
  assumes "moveToNextPlayer s1 = Inr s2" and "activePlayerIdx s1 = activePlayerIdx s"
    and "players s' = players s2" and "activePlayerIdx s' = activePlayerIdx s2"
  shows "turnOk s s'"
  using moveToNextPlayer_turn [OF assms(1)] assms(2,3,4) by (simp add: turnOk_def)

lemma handleCheckCall_turn:
  assumes "handleCheckCall s = Inr s'"
  shows "turnOk s s'"
  using assms
  by (auto simp: handleCheckCall_def Let_def split: if_splits sum.splits
           intro!: moveToNextPlayer_turnOk)

lemma handleRaise_turn:
  assumes "handleRaise amount s = Inr s'"
  shows "turnOk s s'"
proof (cases "s' = s")
  case True
  then show ?thesis by (simp add: turnOk_def)
next
  case False
  then show ?thesis
    using assms
    by (auto simp: handleRaise_def Let_def split: if_splits sum.splits
             intro!: moveToNextPlayer_turnOk)
qed

lemma handleFold_turn:
  assumes "handleFold s = Inr s'"
  shows "turnOk s s'"
proof -
  let ?s1 = "addLog (name (players s ! activePlayerIdx s) @ '' folds.'') LogAction
               (s\<lparr>players := mutate (players s) (activePlayerIdx s) (\<lambda>p. p\<lparr>status := Folded\<rparr>)\<rparr>)"
  have "activePlayerIdx s' = activePlayerIdx s \<or> moveToNextPlayer ?s1 = Inr s'"
    using assms
    by (auto simp: handleFold_def Let_def split: if_splits list.splits option.splits)
  then show ?thesis
  proof
    assume "activePlayerIdx s' = activePlayerIdx s"
    then show ?thesis by (simp add: turnOk_def)
  next
    assume "moveToNextPlayer ?s1 = Inr s'"
    then show ?thesis by (rule moveToNextPlayer_turnOk) simp_all
  qed
qed

lemma handleShowdown_turn:
  assumes "handleShowdown s = Inr s'"
  shows "activePlayerIdx s' = activePlayerIdx s \<and> map status (players s') = map status (players s)"
proof -
  have "map status (mutate ps i (\<lambda>p. p\<lparr>chips := chips p + x\<rparr>)) = map status ps" for ps i x
  proof (cases "i < length ps")
    case True
    then have "(map status ps)[i := status (ps ! i)] = (map status ps)[i := map status ps ! i]"
      by simp
    then show ?thesis
      by (simp add: mutate_def map_update del: nth_map)
  next
    case False
    then have "ps[i := (ps ! i)\<lparr>chips := chips (ps ! i) + x\<rparr>] = ps"
      by (intro list_update_beyond) simp
    then show ?thesis by (simp add: mutate_def)
  qed
  then show ?thesis
    using assms
    by (auto simp: handleShowdown_def Let_def addLog_def
             split: if_splits sum.splits option.splits prod.splits)
qed

lemma nextPhase_first:
  assumes "nextPhase s = Inr s'"
    and "\<exists>p \<in> set (players s). status p = Active \<or> status p = AllIn"
  shows "firstFrom (\<lambda>p. status p = Active \<or> status p = AllIn) (players s')
           (dealerIdx s + 1) (activePlayerIdx s')"
proof -
  let ?skip = "\<lambda>p. status p \<noteq> Active \<and> status p \<noteq> AllIn"
  let ?new = "map (\<lambda>p. p\<lparr>bet := 0\<rparr>) (players s)"
  let ?n = "length ?new"
  let ?next = "scanFrom ?skip ?new ((dealerIdx s + 1) mod ?n) 0"
  let ?s1 = "s\<lparr>players := ?new, currentBet := 0, activePlayerIdx := ?next\<rparr>"
  have ne: "?new \<noteq> []"
    using assms(1) by (auto simp: nextPhase_def Let_def split: if_splits)
  from assms(2) obtain j where j: "j < length (players s)"
      "status (players s ! j) = Active \<or> status (players s ! j) = AllIn"
    by (auto simp: in_set_conv_nth)
  then have good: "j < ?n" "\<not> ?skip (?new ! j)"
    by auto
  have "(dealerIdx s + 1) mod ?n < ?n"
    using ne by (intro mod_less_divisor) simp
  then have "firstFrom (\<lambda>p. \<not> ?skip p) ?new ((dealerIdx s + 1) mod ?n) ?next"
    using good by (intro scanFrom_firstFrom)
  then have f: "firstFrom (\<lambda>p. \<not> ?skip p) ?new (dealerIdx s + 1) ?next"
    by (simp only: firstFrom_mod)
  have eq: "(\<lambda>p. \<not> ?skip p) = (\<lambda>p. status p = Active \<or> status p = AllIn)"
    by (intro ext) auto
  have found: "firstFrom (\<lambda>p. status p = Active \<or> status p = AllIn) ?new
      (dealerIdx s + 1) ?next"
    using f unfolding eq .
  have "activePlayerIdx s' = ?next \<and> map status (players s') = map status ?new"
    using assms(1) ne handleShowdown_turn [of ?s1 s']
    by (auto simp: nextPhase_def Let_def split: if_splits sum.splits prod.splits)
  then have a: "activePlayerIdx s' = ?next" and st: "map status (players s') = map status ?new"
    by simp_all
  from firstFrom_status [OF st, of "\<lambda>x. x = Active \<or> x = AllIn"] found a
  show ?thesis by simp
qed

lemma runPending_first:
  assumes "runPending c s = Inr s'"
    and "\<exists>p \<in> set (players s). status p = Active \<or> status p = AllIn"
  shows "firstFrom (\<lambda>p. status p = Active \<or> status p = AllIn) (players s')
           (seenDealerIdx c + 1) (activePlayerIdx s')"
proof -
  let ?v = "s\<lparr>phase := seenPhase c, deck := seenDeck c,
               communityCards := seenCommunityCards c, pot := seenPot c,
               dealerIdx := seenDealerIdx c\<rparr>"
  from assms(1) obtain r where r: "nextPhase ?v = Inr r" and pl: "players s' = players r"
      and a: "activePlayerIdx s' = activePlayerIdx r"
    by (auto simp: runPending_def split: sum.splits if_splits)
  have "\<exists>p \<in> set (players ?v). status p = Active \<or> status p = AllIn"
    using assms(2) by simp
  from nextPhase_first [OF r this] show ?thesis
    using pl a by simp
qed

text \<open>
  Within a hand the dealer index that a pending callback reads is the dealer index
  of the table: no event changes \<^verbatim>\<open>dealerIdx\<close>, and a callback is scheduled with the
  one of its render.
\<close>

lemma moveToNextPlayer_dealer:
  assumes "moveToNextPlayer s = Inr s'"
  shows "dealerIdx s' = dealerIdx s
       \<and> set (timeouts s') \<subseteq> set (timeouts s) \<union> {c. seenDealerIdx c = dealerIdx s}"
  using assms by (auto simp: moveToNextPlayer_def Let_def schedule_def split: if_splits)

lemma handleShowdown_dealer:
  assumes "handleShowdown s = Inr s'"
  shows "dealerIdx s' = dealerIdx s \<and> timeouts s' = timeouts s"
  using assms
  by (auto simp: handleShowdown_def Let_def addLog_def
           split: if_splits sum.splits option.splits prod.splits)

lemma nextPhase_dealer:
  assumes "nextPhase s = Inr s'"
  shows "timeouts s' = timeouts s"
  using assms
  by (auto simp: nextPhase_def Let_def addLog_def
           split: if_splits sum.splits prod.splits dest: handleShowdown_dealer)

lemma applyEvent_dealer:
  assumes "applyEvent e s = Inr s'"
  shows "dealerIdx s' = dealerIdx s
       \<and> set (timeouts s') \<subseteq> set (timeouts s) \<union> {c. seenDealerIdx c = dealerIdx s}"
proof (cases e)
  case FoldE
  then show ?thesis
    using assms
    by (auto simp: handleFold_def Let_def
             split: if_splits list.splits option.splits dest!: moveToNextPlayer_dealer)
next
  case CheckCallE
  then show ?thesis
    using assms
    by (auto simp: handleCheckCall_def Let_def split: if_splits sum.splits
             dest!: moveToNextPlayer_dealer)
next
  case (RaiseE amount)
  then show ?thesis
    using assms
    by (auto simp: handleRaise_def Let_def split: if_splits sum.splits
             dest!: moveToNextPlayer_dealer)
next
  case (NextPhaseE k)
  show ?thesis
  proof (cases "k < length (timeouts s)")
    case True
    let ?rest = "take k (timeouts s) @ drop (Suc k) (timeouts s)"
    have sub: "set ?rest \<subseteq> set (timeouts s)"
      using set_take_subset [of k "timeouts s"] set_drop_subset [of "Suc k" "timeouts s"]
      by auto
    from assms NextPhaseE True obtain r where
      r: "nextPhase (s\<lparr>timeouts := ?rest, phase := seenPhase (timeouts s ! k),
            deck := seenDeck (timeouts s ! k),
            communityCards := seenCommunityCards (timeouts s ! k),
            pot := seenPot (timeouts s ! k),
            dealerIdx := seenDealerIdx (timeouts s ! k)\<rparr>) = Inr r"
      and s': "dealerIdx s' = dealerIdx s" "timeouts s' = timeouts r"
      by (auto simp: runPending_def split: sum.splits if_splits)
    from nextPhase_dealer [OF r] s' sub show ?thesis
      by auto
  next
    case False
    then show ?thesis using assms NextPhaseE by auto
  qed
qed

lemma run_dealer:
  assumes "run es s = Inr s'" and "\<forall>c \<in> set (timeouts s). seenDealerIdx c = dealerIdx s"
  shows "dealerIdx s' = dealerIdx s \<and> (\<forall>c \<in> set (timeouts s'). seenDealerIdx c = dealerIdx s')"
  using assms
proof (induction es arbitrary: s)
  case Nil
  then show ?case by simp
next
  case (Cons e es)
  then obtain s1 where s1: "applyEvent e s = Inr s1" and rest: "run es s1 = Inr s'"
    by (auto split: sum.splits)
  from applyEvent_dealer [OF s1] Cons.prems(2)
  have d: "dealerIdx s1 = dealerIdx s" and "\<forall>c \<in> set (timeouts s1). seenDealerIdx c = dealerIdx s1"
    by auto
  from Cons.IH [OF rest this(2)] d show ?case by simp
qed

text \<open>
  C5 (amended). After a player action (fold, check/call, raise) the active index is
  either left as it was (a street advance was scheduled, the hand ended or the raise
  was rejected) or set to the first player after the one who acted, in seat order
  round the table, whose status is Active. At a street boundary \<^verbatim>\<open>nextPhase\<close> sets
  it to the first player after the dealer who is Active or AllIn: when some player
  is Active or AllIn, the new active player is never Folded or Busted, but can be
  AllIn. The dealer is the \<^verbatim>\<open>dealerIdx\<close> the callback reads; in every state that a
  sequence of events leads to (from a table whose pending callbacks, if any, have
  its dealer index) that is the \<^verbatim>\<open>dealerIdx\<close> of the table.
\<close>

theorem turn_advance_targets:
  "((\<forall>k. e \<noteq> NextPhaseE k) \<longrightarrow> applyEvent e s = Inr s' \<longrightarrow>
      activePlayerIdx s' = activePlayerIdx s
      \<or> (activePlayerIdx s' < length (players s')
          \<and> status (players s' ! activePlayerIdx s') = Active
          \<and> firstFrom (\<lambda>p. status p = Active) (players s') (activePlayerIdx s + 1)
               (activePlayerIdx s')))
   \<and> (k < length (timeouts t) \<longrightarrow> applyEvent (NextPhaseE k) t = Inr t' \<longrightarrow>
        (\<exists>p \<in> set (players t). status p = Active \<or> status p = AllIn) \<longrightarrow>
        activePlayerIdx t' < length (players t')
        \<and> (status (players t' ! activePlayerIdx t') = Active
           \<or> status (players t' ! activePlayerIdx t') = AllIn)
        \<and> firstFrom (\<lambda>p. status p = Active \<or> status p = AllIn) (players t')
             (seenDealerIdx (timeouts t ! k) + 1) (activePlayerIdx t'))
   \<and> ((\<forall>c \<in> set (timeouts u0). seenDealerIdx c = dealerIdx u0) \<longrightarrow> run es u0 = Inr u \<longrightarrow>
        j < length (timeouts u) \<longrightarrow> applyEvent (NextPhaseE j) u = Inr u' \<longrightarrow>
        (\<exists>p \<in> set (players u). status p = Active \<or> status p = AllIn) \<longrightarrow>
        firstFrom (\<lambda>p. status p = Active \<or> status p = AllIn) (players u')
          (dealerIdx u + 1) (activePlayerIdx u'))"
proof -
  have action: "activePlayerIdx s' = activePlayerIdx s
      \<or> (activePlayerIdx s' < length (players s')
          \<and> status (players s' ! activePlayerIdx s') = Active
          \<and> firstFrom (\<lambda>p. status p = Active) (players s') (activePlayerIdx s + 1)
               (activePlayerIdx s'))"
    if "\<forall>k. e \<noteq> NextPhaseE k" and "applyEvent e s = Inr s'"
  proof -
    have "turnOk s s'"
      using that handleFold_turn [of s s'] handleCheckCall_turn [of s s']
        handleRaise_turn [of _ s s']
      by (cases e) simp_all
    then show ?thesis
      unfolding turnOk_def
      using firstFromD [of "\<lambda>p. status p = Active" "players s'" "activePlayerIdx s + 1"
          "activePlayerIdx s'"]
      by blast
  qed
  have boundary: "activePlayerIdx t' < length (players t')
        \<and> (status (players t' ! activePlayerIdx t') = Active
           \<or> status (players t' ! activePlayerIdx t') = AllIn)
        \<and> firstFrom (\<lambda>p. status p = Active \<or> status p = AllIn) (players t')
             (seenDealerIdx (timeouts t ! k) + 1) (activePlayerIdx t')"
    if k: "k < length (timeouts t)" and ev: "applyEvent (NextPhaseE k) t = Inr t'"
      and some: "\<exists>p \<in> set (players t). status p = Active \<or> status p = AllIn"
  proof -
    let ?rest = "t\<lparr>timeouts := take k (timeouts t) @ drop (Suc k) (timeouts t)\<rparr>"
    have "runPending (timeouts t ! k) ?rest = Inr t'"
      using k ev by simp
    moreover have "\<exists>p \<in> set (players ?rest). status p = Active \<or> status p = AllIn"
      using some by simp
    ultimately have f: "firstFrom (\<lambda>p. status p = Active \<or> status p = AllIn) (players t')
        (seenDealerIdx (timeouts t ! k) + 1) (activePlayerIdx t')"
      by (rule runPending_first)
    from firstFromD [OF f] f show ?thesis by blast
  qed
  have first: "firstFrom (\<lambda>p. status p = Active \<or> status p = AllIn) (players t')
             (seenDealerIdx (timeouts t ! k) + 1) (activePlayerIdx t')"
    if "k < length (timeouts t)" and "applyEvent (NextPhaseE k) t = Inr t'"
      and "\<exists>p \<in> set (players t). status p = Active \<or> status p = AllIn" for k t t'
  proof -
    let ?rest = "t\<lparr>timeouts := take k (timeouts t) @ drop (Suc k) (timeouts t)\<rparr>"
    have "runPending (timeouts t ! k) ?rest = Inr t'"
      using that(1,2) by simp
    moreover have "\<exists>p \<in> set (players ?rest). status p = Active \<or> status p = AllIn"
      using that(3) by simp
    ultimately show ?thesis
      by (rule runPending_first)
  qed
  have reached: "firstFrom (\<lambda>p. status p = Active \<or> status p = AllIn) (players u')
          (dealerIdx u + 1) (activePlayerIdx u')"
    if inv: "\<forall>c \<in> set (timeouts u0). seenDealerIdx c = dealerIdx u0"
      and run: "run es u0 = Inr u" and j: "j < length (timeouts u)"
      and ev: "applyEvent (NextPhaseE j) u = Inr u'"
      and some: "\<exists>p \<in> set (players u). status p = Active \<or> status p = AllIn"
  proof -
    have "timeouts u ! j \<in> set (timeouts u)"
      using j by (rule nth_mem)
    then have "seenDealerIdx (timeouts u ! j) = dealerIdx u"
      using run_dealer [OF run inv] by blast
    then show ?thesis
      using first [OF j ev some] by simp
  qed
  show ?thesis
    using action boundary reached by blast
qed

theorem turn_advance_targets_witness:
  "(\<forall>k. RaiseE 20 \<noteq> NextPhaseE k)
   \<and> applyEvent (RaiseE 20) preflopExample = Inr raisedExample
   \<and> activePlayerIdx preflopExample = 1
   \<and> activePlayerIdx raisedExample = 0
   \<and> status (players raisedExample ! 0) = Active
   \<and> firstFrom (\<lambda>p. status p = Active) (players raisedExample) (1 + 1) 0
   \<and> 0 < length (timeouts buttonExample)
   \<and> applyEvent (NextPhaseE 0) buttonExample = Inr buttonFlop
   \<and> status (players buttonExample ! 0) = AllIn
   \<and> seenDealerIdx (timeouts buttonExample ! 0) = 1
   \<and> activePlayerIdx buttonFlop = 0
   \<and> status (players buttonFlop ! 0) = AllIn
   \<and> firstFrom (\<lambda>p. status p = Active \<or> status p = AllIn) (players buttonFlop) (1 + 1) 0
   \<and> timeouts preflopExample = []
   \<and> run [CheckCallE] preflopExample = Inr calledExample
   \<and> 0 < length (timeouts calledExample)
   \<and> applyEvent (NextPhaseE 0) calledExample = Inr flopExample
   \<and> status (players calledExample ! 0) = Active
   \<and> dealerIdx calledExample = 0
   \<and> activePlayerIdx flopExample = 1
   \<and> firstFrom (\<lambda>p. status p = Active \<or> status p = AllIn) (players flopExample) (0 + 1) 1"
proof -
  have e: "\<forall>k. RaiseE 20 \<noteq> NextPhaseE k"
    by simp
  have r: "applyEvent (RaiseE 20) preflopExample = Inr raisedExample"
    by code_simp
  have a0: "activePlayerIdx preflopExample = 1"
    by (simp add: preflopExample_def)
  have a1: "activePlayerIdx raisedExample = 0"
    by (simp add: raisedExample_def)
  have k: "0 < length (timeouts buttonExample)"
    by (simp add: buttonExample_def)
  have ev: "applyEvent (NextPhaseE 0) buttonExample = Inr buttonFlop"
    by code_simp
  have st: "status (players buttonExample ! 0) = AllIn"
    by (simp add: buttonExample_def)
  have "players buttonExample ! 0 \<in> set (players buttonExample)"
    by (simp add: buttonExample_def)
  with st have some: "\<exists>p \<in> set (players buttonExample). status p = Active \<or> status p = AllIn"
    by blast
  have d: "seenDealerIdx (timeouts buttonExample ! 0) = 1"
    by (simp add: buttonExample_def)
  have a2: "activePlayerIdx buttonFlop = 0"
    by (simp add: buttonFlop_def)
  have st2: "status (players buttonFlop ! 0) = AllIn"
    by (simp add: buttonFlop_def)
  have t0: "timeouts preflopExample = []"
    by (simp add: preflopExample_def)
  then have inv: "\<forall>c \<in> set (timeouts preflopExample). seenDealerIdx c = dealerIdx preflopExample"
    by simp
  have rn: "run [CheckCallE] preflopExample = Inr calledExample"
    by code_simp
  have j: "0 < length (timeouts calledExample)"
    by (simp add: calledExample_def)
  have ev2: "applyEvent (NextPhaseE 0) calledExample = Inr flopExample"
    by code_simp
  have st3: "status (players calledExample ! 0) = Active"
    by (simp add: calledExample_def)
  have "players calledExample ! 0 \<in> set (players calledExample)"
    by (simp add: calledExample_def)
  with st3 have some2: "\<exists>p \<in> set (players calledExample). status p = Active \<or> status p = AllIn"
    by blast
  have d2: "dealerIdx calledExample = 0"
    by (simp add: calledExample_def)
  have a3: "activePlayerIdx flopExample = 1"
    by (simp add: flopExample_def)
  note all = turn_advance_targets [of "RaiseE 20" preflopExample raisedExample
      0 buttonExample buttonFlop preflopExample "[CheckCallE]" calledExample 0 flopExample]
  have c1: "status (players raisedExample ! 0) = Active
      \<and> firstFrom (\<lambda>p. status p = Active) (players raisedExample) (1 + 1) 0"
    using all e r a0 a1 by auto
  have c2: "firstFrom (\<lambda>p. status p = Active \<or> status p = AllIn) (players buttonFlop) (1 + 1) 0"
    using all k ev some d a2 by auto
  have c3: "firstFrom (\<lambda>p. status p = Active \<or> status p = AllIn) (players flopExample) (0 + 1) 1"
    using all inv rn j ev2 some2 d2 a3 by auto
  show ?thesis
    using e r a0 a1 c1 k ev st d a2 st2 c2 t0 rn j ev2 st3 d2 a3 c3 by blast
qed

text \<open>
  C5 as stated fails at a street boundary. Three players start a hand, the small
  blind B with 15 chips. A calls, B calls all-in, the round closes and the timer
  runs \<^verbatim>\<open>nextPhase\<close>: the flop is dealt and the active index is 1, the all-in
  player B.
\<close>

theorem street_boundary_selects_allin:
  "\<not> isl (startNewHand (\<lambda>k. 0) (\<lambda>r s. []) 0
        [mkPlayer ''A'' 1000 0 Active [], mkPlayer ''B'' 15 0 Active [],
         mkPlayer ''C'' 1000 0 Active []]
        (mkTable Setup [] [] [] 0 0 0))
   \<and> \<not> isl (run [CheckCallE, CheckCallE, NextPhaseE 0] (projr (startNewHand (\<lambda>k. 0) (\<lambda>r s. []) 0
        [mkPlayer ''A'' 1000 0 Active [], mkPlayer ''B'' 15 0 Active [],
         mkPlayer ''C'' 1000 0 Active []]
        (mkTable Setup [] [] [] 0 0 0))))
   \<and> phase (projr (run [CheckCallE, CheckCallE, NextPhaseE 0] (projr (startNewHand (\<lambda>k. 0) (\<lambda>r s. []) 0
        [mkPlayer ''A'' 1000 0 Active [], mkPlayer ''B'' 15 0 Active [],
         mkPlayer ''C'' 1000 0 Active []]
        (mkTable Setup [] [] [] 0 0 0))))) = Flop
   \<and> activePlayerIdx (projr (run [CheckCallE, CheckCallE, NextPhaseE 0] (projr (startNewHand (\<lambda>k. 0) (\<lambda>r s. []) 0
        [mkPlayer ''A'' 1000 0 Active [], mkPlayer ''B'' 15 0 Active [],
         mkPlayer ''C'' 1000 0 Active []]
        (mkTable Setup [] [] [] 0 0 0))))) = 1
   \<and> map status (players (projr (run [CheckCallE, CheckCallE, NextPhaseE 0] (projr (startNewHand (\<lambda>k. 0) (\<lambda>r s. []) 0
        [mkPlayer ''A'' 1000 0 Active [], mkPlayer ''B'' 15 0 Active [],
         mkPlayer ''C'' 1000 0 Active []]
        (mkTable Setup [] [] [] 0 0 0))))))
     = [Active, AllIn, Active]"
  by code_simp

subsection \<open>Blinds\<close>

text \<open>
  C6. The claim wants the dealer to post the small blind when two players start a
  hand. \<^verbatim>\<open>startNewHand\<close> of App.tsx has no heads-up case: the small blind is the
  seat after the dealer and the big blind the second seat after the dealer, which
  with two players is the dealer. Here A holds the button and posts the big blind of
  20, B posts the small blind of 10.
\<close>

theorem headsUp_dealer_posts_big_blind:
  "\<not> isl (startNewHand (\<lambda>k. 0) (\<lambda>r s. []) 0
        [mkPlayer ''A'' 1000 0 Active [], mkPlayer ''B'' 1000 0 Active []]
        (mkTable Setup [] [] [] 0 0 0))
   \<and> map (\<lambda>p. (name p, isDealer p, isSmallBlind p, isBigBlind p, bet p)) (players (projr (startNewHand (\<lambda>k. 0) (\<lambda>r s. []) 0
        [mkPlayer ''A'' 1000 0 Active [], mkPlayer ''B'' 1000 0 Active []]
        (mkTable Setup [] [] [] 0 0 0))))
     = [(''A'', True, False, True, 20), (''B'', False, True, False, 10)]"
  by code_simp

lemma shuffleLoop_nth_length:
  "b < length h \<Longrightarrow> length (shuffleLoop rnd b i h ! b) = length (h ! b)"
  by (induction i arbitrary: h) simp_all

lemma newDeck_length:
  "length (fst (shuffleDeck rnd [createDeck mkId] 0) ! snd (shuffleDeck rnd [createDeck mkId] 0)) = 52"
  by (simp add: shuffleDeck_def alloc_def shuffleLoop_nth_length createDeck_length)

lemma resetPlayer_fields [simp]:
  "chips (resetPlayer p) = chips p" "\<not> isDealer (resetPlayer p)"
  "\<not> isSmallBlind (resetPlayer p)" "\<not> isBigBlind (resetPlayer p)"
  by (simp_all add: resetPlayer_def)

lemma two_survivors:
  assumes "length (filter (\<lambda>p. 0 < chips p) currentPlayers) = 2"
  shows "\<exists>p q. filter (\<lambda>p. status p \<noteq> Busted) (map resetPlayer currentPlayers)
            = [resetPlayer p, resetPlayer q]
          \<and> filter (\<lambda>p. 0 < chips p) currentPlayers = [p, q]"
proof -
  have eq: "filter (\<lambda>p. status p \<noteq> Busted) (map resetPlayer currentPlayers)
      = map resetPlayer (filter (\<lambda>p. 0 < chips p) currentPlayers)"
    by (induction currentPlayers) (simp_all add: resetPlayer_def)
  from assms obtain p q where "filter (\<lambda>p. 0 < chips p) currentPlayers = [p, q]"
    by (auto simp: length_Suc_conv numeral_2_eq_2)
  then show ?thesis using eq by simp
qed

text \<open>
  The same holds for every hand that two players start, whoever holds the button:
  the dealer is flagged big blind and posts it, the other player is the small
  blind.
\<close>

lemma headsUp_dealer_is_big_blind:
  assumes "filter (\<lambda>p. 0 < chips p) currentPlayers = [p0, p1]"
  shows "\<exists>s'. startNewHand rnd mkId newDealerIdx currentPlayers s = Inr s'
           \<and> length (players s') = 2
           \<and> isDealer (players s' ! (newDealerIdx mod 2))
           \<and> isBigBlind (players s' ! (newDealerIdx mod 2))
           \<and> \<not> isSmallBlind (players s' ! (newDealerIdx mod 2))
           \<and> bet (players s' ! (newDealerIdx mod 2))
               = min (chips ([p0, p1] ! (newDealerIdx mod 2))) BIG_BLIND
           \<and> isSmallBlind (players s' ! ((newDealerIdx + 1) mod 2))
           \<and> \<not> isBigBlind (players s' ! ((newDealerIdx + 1) mod 2))
           \<and> \<not> isDealer (players s' ! ((newDealerIdx + 1) mod 2))
           \<and> bet (players s' ! ((newDealerIdx + 1) mod 2))
               = min (chips ([p0, p1] ! ((newDealerIdx + 1) mod 2))) SMALL_BLIND"
proof -
  have reset: "filter (\<lambda>p. status p \<noteq> Busted) (map resetPlayer currentPlayers)
      = [resetPlayer p0, resetPlayer p1]"
    using two_survivors [of currentPlayers] assms by auto
  obtain h a where sh: "shuffleDeck rnd [createDeck mkId] 0 = (h, a)"
    by (cases "shuffleDeck rnd [createDeck mkId] 0")
  then have len: "length (h ! a) = 52"
    using newDeck_length [of rnd mkId] by simp
  consider "newDealerIdx mod 2 = 0" | "newDealerIdx mod 2 = 1"
    by linarith
  then show ?thesis
  proof cases
    case 1
    then have m: "(newDealerIdx + 1) mod 2 = 1" "(newDealerIdx + 2) mod 2 = 0"
      by presburger+
    have m': "newDealerIdx mod Suc (Suc 0) = 0" "Suc newDealerIdx mod Suc (Suc 0) = Suc 0"
      "Suc (Suc newDealerIdx) mod Suc (Suc 0) = 0"
      using 1 m by (simp_all add: numeral_2_eq_2)
    show ?thesis
      using 1 m m' reset sh len
      by (simp add: startNewHand_def Let_def mutate_def popCards_def addLog_def)
  next
    case 2
    then have m: "(newDealerIdx + 1) mod 2 = 0" "(newDealerIdx + 2) mod 2 = 1"
      by presburger+
    have m': "newDealerIdx mod Suc (Suc 0) = Suc 0" "Suc newDealerIdx mod Suc (Suc 0) = 0"
      "Suc (Suc newDealerIdx) mod Suc (Suc 0) = Suc 0"
      using 2 m by (simp_all add: numeral_2_eq_2)
    show ?thesis
      using 2 m m' reset sh len
      by (simp add: startNewHand_def Let_def mutate_def popCards_def addLog_def)
  qed
qed

text \<open>
  The variant of \<^verbatim>\<open>startNewHand\<close> with the heads-up case does what the claim says at
  the same input: A holds the button and posts the small blind of 10, B posts the
  big blind of 20, and A acts first.
\<close>

lemma seats_headsUp:
  "map_option (map_sum id (\<lambda>s. (map (\<lambda>p. (name p, isDealer p, isSmallBlind p, isBigBlind p, bet p)) (players s), pot s, activePlayerIdx s)))
     (startNewHand_seats (\<lambda>k. 0) (\<lambda>r s. []) 0
        [mkPlayer ''A'' 1000 0 Active [], mkPlayer ''B'' 1000 0 Active []]
        (mkTable Setup [] [] [] 0 0 0))
   = Some (Inr ([(''A'', True, True, False, 10), (''B'', False, False, True, 20)], 30, 0))"
  by code_simp

end
